theory Spec2Isabelle
  imports Main "HOL-Library.Sublist"
begin

section \<open>Python values and string primitives\<close>

text \<open>
  A Python \<open>str\<close> is modelled as a \<open>string\<close>, one \<open>char\<close> per code point; the model
  therefore covers the code points below 256.  Exceptions are values of \<open>error\<close>, and a
  call that may raise returns \<open>error + 'a\<close> with \<open>Inl\<close> for the exception.
\<close>

datatype error =
  KeyError | IndexError | ValueError | OSError | FileExistsError | URLError | UnknownType

fun bind :: "error + 'a \<Rightarrow> ('a \<Rightarrow> error + 'b) \<Rightarrow> error + 'b" where
  "bind (Inl e) f = Inl e"
| "bind (Inr x) f = f x"

text \<open>\<open>xs[0]\<close> and \<open>xs[-1]\<close>: both raise \<open>IndexError\<close> on the empty list.\<close>

fun item_first :: "'a list \<Rightarrow> error + 'a" where
  "item_first [] = Inl IndexError"
| "item_first (x # xs) = Inr x"

fun item_last :: "'a list \<Rightarrow> error + 'a" where
  "item_last [] = Inl IndexError"
| "item_last xs = Inr (last xs)"

text \<open>
  \<open>s.find(sub)\<close>: the lowest index at which \<open>sub\<close> occurs in \<open>s\<close>, or \<open>-1\<close>.
\<close>

fun py_find :: "string \<Rightarrow> string \<Rightarrow> int" where
  "py_find sub [] = (if sub = [] then 0 else - 1)"
| "py_find sub (c # cs) =
     (if prefix sub (c # cs) then 0
      else (let r = py_find sub cs in if r = - 1 then - 1 else r + 1))"

text \<open>
  \<open>s.split(sep=sep)\<close> for a non-empty separator: the pieces between the occurrences of
  \<open>sep\<close>, found from left to right without overlap.  The result always has at least one
  piece.  (Python rejects the empty separator; the program only passes non-empty
  literals.)
\<close>

fun py_split :: "string \<Rightarrow> string \<Rightarrow> string list" where
  "py_split sep [] = [[]]"
| "py_split sep (c # cs) =
     (if prefix sep (c # cs) then [] # py_split sep (drop (length sep - 1) cs)
      else (case py_split sep cs of
              [] \<Rightarrow> [[c]]
            | p # ps \<Rightarrow> (c # p) # ps))"

text \<open>
  \<open>str.isspace\<close> on the code points below 256: the ASCII controls 9 to 13 and 28 to 31,
  the space, NEL (133) and the no-break space (160).
\<close>

definition is_space :: "char \<Rightarrow> bool" where
  "is_space c = ((of_char c :: nat) \<in> {9, 10, 11, 12, 13, 28, 29, 30, 31, 32, 133, 160})"

text \<open>\<open>s.split()\<close> with no separator: the maximal runs of non-whitespace, possibly none.\<close>

function py_split_ws :: "string \<Rightarrow> string list" where
  "py_split_ws [] = []"
| "py_split_ws (c # cs) =
     (if is_space c then py_split_ws cs
      else (c # takeWhile (\<lambda>x. \<not> is_space x) cs)
             # py_split_ws (dropWhile (\<lambda>x. \<not> is_space x) cs))"
  by pat_completeness auto
termination
  by (relation "measure length") (auto simp: le_imp_less_Suc length_dropWhile_le)

text \<open>
  \<open>str(n)\<close> for a non-negative integer, and what an f-string writes for an \<open>int\<close>:
  the decimal digits, with a minus sign in front of a negative number.
\<close>

definition digit_char :: "nat \<Rightarrow> char" where
  "digit_char d = ''0123456789'' ! d"

fun str_nat :: "nat \<Rightarrow> string" where
  "str_nat n = (if n < 10 then [digit_char n] else str_nat (n div 10) @ [digit_char (n mod 10)])"

declare str_nat.simps [simp del]

definition py_str_int :: "int \<Rightarrow> string" where
  "py_str_int i = (if i < 0 then CHR ''-'' # str_nat (nat (- i)) else str_nat (nat i))"

text \<open>
  The class \<open>\w\<close> of a \<open>str\<close> pattern on the code points below 256: the ASCII letters,
  digits and underscore, and the characters of Latin-1 that \<open>str.isalnum\<close> accepts
  (the ordinal indicators, the micro sign, the superscript digits, the vulgar fractions
  and the accented letters, which leave out the multiplication and division signs).
\<close>

definition is_word :: "char \<Rightarrow> bool" where
  "is_word c =
     (let n = (of_char c :: nat) in
        (48 \<le> n \<and> n \<le> 57) \<or> (65 \<le> n \<and> n \<le> 90) \<or> n = 95 \<or> (97 \<le> n \<and> n \<le> 122) \<or>
        n \<in> {170, 178, 179, 181, 185, 186, 188, 189, 190} \<or>
        (192 \<le> n \<and> n \<le> 214) \<or> (216 \<le> n \<and> n \<le> 246) \<or> 248 \<le> n)"

text \<open>
  \<open>re.sub('\W+', repl, s)\<close> for a replacement text without escapes: scanning from the
  left, a word character is copied; at a non-word character the greedy match \<open>\W+\<close> takes
  every non-word character that follows, and the whole match is replaced by \<open>repl\<close>.
\<close>

function re_sub_nonword :: "string \<Rightarrow> string \<Rightarrow> string" where
  "re_sub_nonword repl [] = []"
| "re_sub_nonword repl (c # cs) =
     (if is_word c then c # re_sub_nonword repl cs
      else repl @ re_sub_nonword repl (dropWhile (\<lambda>x. \<not> is_word x) cs))"
  by pat_completeness auto
termination
  by (relation "measure (\<lambda>(repl, s). length s)") (auto simp: le_imp_less_Suc length_dropWhile_le)

text \<open>
  For the statement about sanitization, in the words of the specification: the maximal
  runs of a string with respect to a class \<open>P\<close> of characters.  Neighbouring characters
  stay in one run exactly when \<open>P\<close> agrees on them.
\<close>

fun runs :: "('a \<Rightarrow> bool) \<Rightarrow> 'a list \<Rightarrow> 'a list list" where
  "runs P [] = []"
| "runs P (c # cs) =
     (case runs P cs of
        [] \<Rightarrow> [[c]]
      | r # rs \<Rightarrow> if P (hd r) = P c then (c # r) # rs else [c] # r # rs)"

definition replace_nonword_runs :: "string \<Rightarrow> string" where
  "replace_nonword_runs s =
     concat (map (\<lambda>r. if is_word (hd r) then r else '' '') (runs is_word s))"

section \<open>GUID extraction: \<open>PlexConnection.get_item_guid\<close>\<close>

definition lib_sources :: "string \<rightharpoonup> string list" where
  "lib_sources =
     [''movie'' \<mapsto> [''tmdb'', ''imdb'', ''plex''],
      ''show'' \<mapsto> [''tvdb'', ''tmdb'', ''plex'']]"

text \<open>The body of the \<open>for source in ...\<close> loop once the source name was found.\<close>

definition extract_guid :: "string \<Rightarrow> string \<Rightarrow> error + string" where
  "extract_guid source title =
     (if source = ''plex''
      then bind (item_last (py_split ''plex://'' title))
             (\<lambda>t. item_first (py_split_ws t))
      else bind (item_last (py_split (''{'' @ source @ ''-'') title))
             (\<lambda>t. item_first (py_split ''}'' t)))"

fun guid_loop :: "string \<Rightarrow> bool \<Rightarrow> string list \<Rightarrow> error + string" where
  "guid_loop title full [] = Inr ''-1''"
| "guid_loop title full (source # rest) =
     (if py_find source title = - 1 then guid_loop title full rest
      else bind (extract_guid source title)
             (\<lambda>guid. if full then Inr (source @ ''://'' @ guid) else Inr guid))"

text \<open>
  The \<open>try\<close> block turns the \<open>KeyError\<close> of the dictionary lookup into \<open>UnknownType\<close>;
  nothing else in the body raises \<open>KeyError\<close>, and an \<open>IndexError\<close> is not caught.
\<close>

definition get_item_guid :: "string \<Rightarrow> string \<Rightarrow> bool \<Rightarrow> error + string" where
  "get_item_guid title lib_type full =
     (case lib_sources lib_type of
        None \<Rightarrow> Inl UnknownType
      | Some sources \<Rightarrow> guid_loop title full sources)"

section \<open>Paths and the file system\<close>

text \<open>
  A \<open>pathlib\<close> path of the POSIX flavour is its root flag and its list of components;
  \<open>Path(s)\<close> drops empty components and single dots, and a doubled leading slash
  counts as the root.  \<open>with_name\<close> is the one of Python 3.12, which rejects every
  name that contains the separator.
\<close>

datatype path = Path (is_abs: bool) (parts: "string list")

definition pure_path :: "string \<Rightarrow> path" where
  "pure_path s =
     Path (prefix ''/'' s) (filter (\<lambda>p. p \<noteq> [] \<and> p \<noteq> ''.'') (py_split ''/'' s))"

definition joinpath :: "path \<Rightarrow> string \<Rightarrow> path" where
  "joinpath p s =
     (if prefix ''/'' s then pure_path s
      else Path (is_abs p) (parts p @ parts (pure_path s)))"

definition path_name :: "path \<Rightarrow> string" where
  "path_name p = (if parts p = [] then [] else last (parts p))"

definition path_parent :: "path \<Rightarrow> path" where
  "path_parent p = Path (is_abs p) (butlast (parts p))"

text \<open>\<open>s.rfind(c)\<close> for one character: the highest index of \<open>c\<close> in \<open>s\<close>, or \<open>-1\<close>.\<close>

definition py_rfind_char :: "char \<Rightarrow> string \<Rightarrow> int" where
  "py_rfind_char c s =
     (if c \<in> set s then int (length s) - 1 - int (length (takeWhile (\<lambda>x. x \<noteq> c) (rev s)))
      else - 1)"

definition path_suffix :: "path \<Rightarrow> string" where
  "path_suffix p =
     (let name = path_name p; i = py_rfind_char CHR ''.'' name
      in if 0 < i \<and> i < int (length name) - 1 then drop (nat i) name else [])"

definition with_name :: "path \<Rightarrow> string \<Rightarrow> error + path" where
  "with_name p name =
     (if path_name p = [] then Inl ValueError
      else if name = [] \<or> CHR ''/'' \<in> set name \<or> name = ''.'' then Inl ValueError
      else Inr (Path (is_abs p) (butlast (parts p) @ [name])))"

definition with_stem :: "path \<Rightarrow> string \<Rightarrow> error + path" where
  "with_stem p stem = with_name p (stem @ path_suffix p)"

text \<open>
  The state of the file system: the regular files and the directories, each a finite list
  of the paths that name them, and the two limits of the system on path names: the
  longest component (\<open>NAME_MAX\<close>, 255 bytes on Linux) and the longest path (4095 bytes
  on Linux, \<open>PATH_MAX\<close> less the terminator).  A path without components (the working
  directory or the root) is always present.  A relative path is a name of its own;
  links, permissions and the resolution of \<open>..\<close> are outside the model.
\<close>

record filesystem =
  files :: "path list"
  dirs :: "path list"
  name_max :: nat
  path_max :: nat

text \<open>
  The length in bytes of a name handed to the system, in UTF-8: two bytes for a code
  point from 128 on.  The path is written with one separator between components, a
  leading one when it is absolute, and as a single dot when it has no component.
\<close>

definition fs_bytes :: "string \<Rightarrow> nat" where
  "fs_bytes s = length s + length (filter (\<lambda>c. 128 \<le> (of_char c :: nat)) s)"

definition path_bytes :: "path \<Rightarrow> nat" where
  "path_bytes p =
     (if parts p = [] then 1
      else (if is_abs p then 1 else 0) + sum_list (map fs_bytes (parts p))
           + (length (parts p) - 1))"

definition too_long :: "filesystem \<Rightarrow> path \<Rightarrow> bool" where
  "too_long fs p =
     (list_ex (\<lambda>c. name_max fs < fs_bytes c) (parts p) \<or> path_max fs < path_bytes p)"

definition present :: "filesystem \<Rightarrow> path \<Rightarrow> bool" where
  "present fs p = (parts p = [] \<or> p \<in> set (files fs) \<or> p \<in> set (dirs fs))"

text \<open>
  \<open>Path.exists()\<close> (Python 3.9 to 3.13) calls \<open>stat\<close>: a missing entry gives \<open>False\<close>,
  but the error of a name that is too long (\<open>ENAMETOOLONG\<close>) is raised again as
  \<open>OSError\<close>.  \<open>os.path.exists\<close> and \<open>os.path.isdir\<close> answer \<open>False\<close> on every error.
\<close>

definition path_exists :: "filesystem \<Rightarrow> path \<Rightarrow> error + bool" where
  "path_exists fs p = (if too_long fs p then Inl OSError else Inr (present fs p))"

definition os_path_exists :: "filesystem \<Rightarrow> path \<Rightarrow> bool" where
  "os_path_exists fs p = (\<not> too_long fs p \<and> present fs p)"

definition os_path_isdir :: "filesystem \<Rightarrow> path \<Rightarrow> bool" where
  "os_path_isdir fs p = (\<not> too_long fs p \<and> (parts p = [] \<or> p \<in> set (dirs fs)))"

text \<open>
  \<open>os.mkdir(p)\<close>: fails when the name is too long, when \<open>p\<close> is present
  (\<open>FileExistsError\<close>), and when its parent is not a directory; the last and the first
  are \<open>OSError\<close>s of other kinds.
\<close>

definition mkdir :: "filesystem \<Rightarrow> path \<Rightarrow> filesystem \<times> (error + unit)" where
  "mkdir fs p =
     (if too_long fs p then (fs, Inl OSError)
      else if present fs p then (fs, Inl FileExistsError)
      else if \<not> (parts (path_parent p) = [] \<or> path_parent p \<in> set (dirs fs))
      then (fs, Inl OSError)
      else (fs\<lparr>dirs := dirs fs @ [p]\<rparr>, Inr ()))"

text \<open>
  \<open>os.makedirs(p, exist_ok=True)\<close>: when the parent of \<open>p\<close> is named and does not
  exist, it is made first, by the same function, and only a \<open>FileExistsError\<close> of that
  call is passed over; then \<open>p\<close> is made, and an error of \<open>mkdir\<close> is passed over when
  \<open>p\<close> is a directory by then.
\<close>

function makedirs :: "filesystem \<Rightarrow> path \<Rightarrow> filesystem \<times> (error + unit)" where
  "makedirs fs p =
     (case (if parts p \<noteq> [] \<and> parts (path_parent p) \<noteq> []
               \<and> \<not> os_path_exists fs (path_parent p)
            then (case makedirs fs (path_parent p) of
                    (fs1, Inl e) \<Rightarrow> if e = FileExistsError then (fs1, Inr ()) else (fs1, Inl e)
                  | (fs1, Inr u) \<Rightarrow> (fs1, Inr u))
            else (fs, Inr ())) of
        (fs1, Inl e) \<Rightarrow> (fs1, Inl e)
      | (fs1, Inr _) \<Rightarrow>
          (case mkdir fs1 p of
             (fs2, Inl e) \<Rightarrow> if os_path_isdir fs2 p then (fs2, Inr ()) else (fs2, Inl e)
           | (fs2, Inr u) \<Rightarrow> (fs2, Inr u)))"
  by pat_completeness auto
termination
  by (relation "measure (\<lambda>(fs, p). length (parts p))") (auto simp: path_parent_def)

declare makedirs.simps [simp del]

text \<open>In the words of the specification: the directory and the directories above it.\<close>

definition ancestors_and_self :: "path \<Rightarrow> path list" where
  "ancestors_and_self p =
     map (\<lambda>n. Path (is_abs p) (take n (parts p))) [1..<Suc (length (parts p))]"

text \<open>
  For the frame of \<open>makedirs\<close>: the second state differs from the first in its
  directories only, which are those of the first and some paths of \<open>A\<close>.
\<close>

definition grows_by :: "path set \<Rightarrow> filesystem \<Rightarrow> filesystem \<Rightarrow> bool" where
  "grows_by A fs fs' =
     (files fs' = files fs \<and> name_max fs' = name_max fs \<and> path_max fs' = path_max fs \<and>
      set (dirs fs) \<subseteq> set (dirs fs') \<and> set (dirs fs') \<subseteq> set (dirs fs) \<union> A)"

section \<open>Save paths: \<open>create_save_path\<close> and \<open>download_images\<close>\<close>

text \<open>The probed path: \<open>image_path.with_stem\<close> applied to the name, an underscore and \<open>i\<close>.\<close>

definition candidate :: "path \<Rightarrow> string \<Rightarrow> nat \<Rightarrow> error + path" where
  "candidate image_path name i = with_stem image_path (name @ ''_'' @ str_nat i)"

text \<open>
  The \<open>while\<close> loop ends because the probed paths are pairwise different and the file
  system holds finitely many paths: the indices from \<open>i\<close> on whose path exists form a
  finite set, which loses \<open>i\<close> at every turn.  The facts up to \<open>taken_decreases\<close> are the
  termination argument.
\<close>

definition taken :: "filesystem \<Rightarrow> path \<Rightarrow> string \<Rightarrow> nat \<Rightarrow> nat set" where
  "taken fs ip name i = {j. i \<le> j \<and> (\<exists>p. candidate ip name j = Inr p \<and> present fs p)}"

lemma digit_char_inj: "a < 10 \<Longrightarrow> b < 10 \<Longrightarrow> digit_char a = digit_char b \<Longrightarrow> a = b"
proof -
  have d: "distinct ''0123456789''" by simp
  show "a < 10 \<Longrightarrow> b < 10 \<Longrightarrow> digit_char a = digit_char b \<Longrightarrow> a = b"
    unfolding digit_char_def using d by (subst (asm) nth_eq_iff_index_eq) simp_all
qed

lemma str_nat_nonempty: "str_nat n \<noteq> []"
  by (subst str_nat.simps) simp

lemma str_nat_inj: "str_nat m = str_nat n \<Longrightarrow> m = n"
proof (induction m arbitrary: n rule: str_nat.induct)
  case (1 m)
  show ?case
  proof (cases "m < 10")
    case True
    then have m: "str_nat m = [digit_char m]" by (subst str_nat.simps) simp
    show ?thesis
    proof (cases "n < 10")
      case n: True
      then have "str_nat n = [digit_char n]" by (subst str_nat.simps) simp
      with m "1.prems" True n show ?thesis by (auto dest: digit_char_inj)
    next
      case False
      then have "str_nat n = str_nat (n div 10) @ [digit_char (n mod 10)]"
        by (subst str_nat.simps) simp
      with m "1.prems" show ?thesis using str_nat_nonempty [of "n div 10"] by simp
    qed
  next
    case False
    then have m: "str_nat m = str_nat (m div 10) @ [digit_char (m mod 10)]"
      by (subst str_nat.simps) simp
    show ?thesis
    proof (cases "n < 10")
      case True
      then have "str_nat n = [digit_char n]" by (subst str_nat.simps) simp
      with m "1.prems" show ?thesis using str_nat_nonempty [of "m div 10"] by simp
    next
      case n: False
      then have "str_nat n = str_nat (n div 10) @ [digit_char (n mod 10)]"
        by (subst str_nat.simps) simp
      with m "1.prems" have e: "str_nat (m div 10) = str_nat (n div 10)"
        and d: "digit_char (m mod 10) = digit_char (n mod 10)" by simp_all
      from "1.IH" [OF False e] have "m div 10 = n div 10" .
      moreover from d have "m mod 10 = n mod 10" by (intro digit_char_inj) simp_all
      ultimately show ?thesis by (metis div_mult_mod_eq)
    qed
  qed
qed


lemma candidate_inj:
  "candidate ip name i = Inr p \<Longrightarrow> candidate ip name j = Inr p \<Longrightarrow> i = j"
  by (auto simp: candidate_def with_stem_def with_name_def split: if_splits dest: str_nat_inj)

lemma candidate_parts: "candidate ip name i = Inr p \<Longrightarrow> parts p \<noteq> []"
  by (auto simp: candidate_def with_stem_def with_name_def split: if_splits)

lemma finite_taken: "finite (taken fs ip name i)"
proof -
  let ?A = "{j. \<exists>p. candidate ip name j = Inr p}"
  let ?F = "Inr ` (set (files fs) \<union> set (dirs fs)) :: (error + path) set"
  have inj: "inj_on (candidate ip name) ?A"
    by (rule inj_onI) (auto dest: candidate_inj)
  have "finite ?F" by simp
  then have "finite (candidate ip name -` ?F \<inter> ?A)"
    using inj by (rule finite_vimage_IntI)
  moreover have "taken fs ip name i \<subseteq> candidate ip name -` ?F \<inter> ?A"
    by (auto simp: taken_def present_def dest: candidate_parts)
  ultimately show ?thesis by (rule rev_finite_subset)
qed

lemma taken_decreases:
  assumes "candidate ip name i = Inr p" and "present fs p"
  shows "card (taken fs ip name (Suc i)) < card (taken fs ip name i)"
proof (rule psubset_card_mono [OF finite_taken])
  have "i \<in> taken fs ip name i" using assms by (auto simp: taken_def)
  moreover have "i \<notin> taken fs ip name (Suc i)" by (simp add: taken_def)
  moreover have "taken fs ip name (Suc i) \<subseteq> taken fs ip name i" by (auto simp: taken_def)
  ultimately show "taken fs ip name (Suc i) \<subset> taken fs ip name i" by blast
qed

function probe :: "filesystem \<Rightarrow> path \<Rightarrow> string \<Rightarrow> nat \<Rightarrow> error + nat" where
  "probe fs image_path name i =
     (case candidate image_path name i of
        Inl e \<Rightarrow> Inl e
      | Inr p \<Rightarrow>
          (case path_exists fs p of
             Inl e \<Rightarrow> Inl e
           | Inr b \<Rightarrow> if b then probe fs image_path name (i + 1) else Inr i))"
  by pat_completeness auto
termination
  by (relation "measure (\<lambda>(fs, ip, name, i). card (taken fs ip name i))")
     (auto simp: path_exists_def split: if_splits intro: taken_decreases)

declare probe.simps [simp del]

text \<open>
  \<open>create_save_path\<close>, with the working directory and the file system as explicit
  arguments and the file system after the call as part of the result; \<open>library_name\<close>
  is \<open>library[0]\<close>.
\<close>

definition save_dir :: "path \<Rightarrow> string option \<Rightarrow> string \<Rightarrow> path" where
  "save_dir cwd save_path library_name =
     (case save_path of
        Some sp \<Rightarrow> joinpath (pure_path sp) library_name
      | None \<Rightarrow> joinpath cwd (''Posters/'' @ library_name))"

definition create_save_path ::
  "path \<Rightarrow> filesystem \<Rightarrow> string option \<Rightarrow> string \<Rightarrow> string \<Rightarrow> filesystem \<times> (error + path)" where
  "create_save_path cwd fs save_path library_name name =
     (let save_dir_path = save_dir cwd save_path library_name in
      case makedirs fs save_dir_path of
        (fs', Inl e) \<Rightarrow> (fs', Inl e)
      | (fs', Inr _) \<Rightarrow>
          (let image_path = joinpath save_dir_path (name @ ''.png'') in
           case path_exists fs' image_path of
             Inl e \<Rightarrow> (fs', Inl e)
           | Inr b \<Rightarrow>
               if b
               then (fs', bind (probe fs' image_path name 1) (candidate image_path name))
               else (fs', Inr image_path)))"

text \<open>
  \<open>urllib.request.urlretrieve(url, filename)\<close>: the request comes first and fails with
  \<open>URLError\<close> when the server (a parameter of the model) does not answer it; the file is
  then opened for writing, which needs a name within the limits and its directory, and
  creates the file if it is new.
\<close>

definition urlretrieve ::
  "(string \<Rightarrow> bool) \<Rightarrow> filesystem \<Rightarrow> string \<Rightarrow> path \<Rightarrow> filesystem \<times> (error + unit)" where
  "urlretrieve server fs url filename =
     (if \<not> server url then (fs, Inl URLError)
      else if too_long fs filename \<or> parts filename = [] \<or> filename \<in> set (dirs fs)
              \<or> \<not> (parts (path_parent filename) = [] \<or> path_parent filename \<in> set (dirs fs))
           then (fs, Inl OSError)
      else if filename \<in> set (files fs) then (fs, Inr ())
      else (fs\<lparr>files := files fs @ [filename]\<rparr>, Inr ()))"

definition download_images ::
  "(string \<Rightarrow> bool) \<Rightarrow> path \<Rightarrow> filesystem \<Rightarrow> string option \<Rightarrow> string \<Rightarrow> string \<Rightarrow> string
     \<Rightarrow> filesystem \<times> (error + path)" where
  "download_images server cwd fs save_path library_name name thumb_url =
     (case create_save_path cwd fs save_path library_name name of
        (fs', Inl e) \<Rightarrow> (fs', Inl e)
      | (fs', Inr image_path) \<Rightarrow>
          (case urlretrieve server fs' thumb_url image_path of
             (fs'', Inl e) \<Rightarrow> (fs'', Inl e)
           | (fs'', Inr _) \<Rightarrow> (fs'', Inr (path_parent image_path))))"

text \<open>In the words of the specification: the file \<open><dir>/<stem>.png\<close>.\<close>

definition png_in :: "path \<Rightarrow> string \<Rightarrow> path" where
  "png_in d stem = Path (is_abs d) (parts d @ [stem @ ''.png''])"

section \<open>The download loop of \<open>main\<close> and the environment\<close>

text \<open>
  \<open>os.environ\<close> is a map from names to values; a missing name raises \<open>KeyError\<close>.
\<close>

type_synonym environ = "string \<rightharpoonup> string"

definition environ_get :: "environ \<Rightarrow> string \<Rightarrow> error + string" where
  "environ_get env key = (case env key of None \<Rightarrow> Inl KeyError | Some v \<Rightarrow> Inr v)"

text \<open>
  What the loop reads of the objects the Plex client returns: of an album and of an
  item of a library its title, its thumb (possibly \<open>None\<close>), the URLs of its images, and
  for a video its year (possibly \<open>None\<close>), for an artist its albums.  A library is its
  name (the key of the dictionary), the type of its section and the items \<open>all()\<close> returns.
\<close>

record album =
  album_title :: string
  album_thumb :: "string option"
  album_images :: "string list"

record child =
  child_title :: string
  child_year :: "int option"
  child_thumb :: "string option"
  child_images :: "string list"
  child_albums :: "album list"

record library =
  section_name :: string
  section_type :: string
  section_all :: "child list"

text \<open>
  The state the loop changes: the file system, and the variable \<open>save_dir_path\<close>
  (\<open>None\<close> for its initial empty string).  The progress bar and \<open>print\<close> are left out.
\<close>

record run_state =
  st_fs :: filesystem
  st_save_dir_path :: "path option"

text \<open>What an f-string writes for the year attribute.\<close>

definition py_str_year :: "int option \<Rightarrow> string" where
  "py_str_year y = (case y of None \<Rightarrow> ''None'' | Some i \<Rightarrow> py_str_int i)"

text \<open>
  The poster URL.  The f-string evaluates its fields from left to right: the public
  address from the environment, the URL of the first image, the token from the
  environment.
\<close>

definition thumb_url :: "environ \<Rightarrow> string list \<Rightarrow> error + string" where
  "thumb_url env images =
     bind (environ_get env ''PLEX_SERVER_PUBLIC_IP'') (\<lambda>ip.
     bind (item_first images) (\<lambda>url.
     bind (environ_get env ''PLEX_TOKEN'') (\<lambda>token.
       Inr (ip @ url @ ''?X-Plex-Token='' @ token))))"

text \<open>The common tail of both branches: build the URL, download, remember the directory.\<close>

definition save_poster ::
  "(string \<Rightarrow> bool) \<Rightarrow> environ \<Rightarrow> path \<Rightarrow> string option \<Rightarrow> library \<Rightarrow> run_state
     \<Rightarrow> string \<Rightarrow> string list \<Rightarrow> run_state \<times> (error + unit)" where
  "save_poster server env cwd save_path lib st name images =
     (case thumb_url env images of
        Inl e \<Rightarrow> (st, Inl e)
      | Inr url \<Rightarrow>
          (case download_images server cwd (st_fs st) save_path (section_name lib) name url of
             (fs', Inl e) \<Rightarrow> (st\<lparr>st_fs := fs'\<rparr>, Inl e)
           | (fs', Inr d) \<Rightarrow> (\<lparr>st_fs = fs', st_save_dir_path = Some d\<rparr>, Inr ())))"

text \<open>The name of a video item: the cleaned title, then the year in parentheses.\<close>

definition video_name :: "child \<Rightarrow> string" where
  "video_name c =
     (let name = re_sub_nonword '' '' (child_title c);
          name = name @ '' ('' @ py_str_year (child_year c) @ '')''
      in name)"

definition process_album ::
  "(string \<Rightarrow> bool) \<Rightarrow> environ \<Rightarrow> path \<Rightarrow> string option \<Rightarrow> library \<Rightarrow> run_state
     \<Rightarrow> album \<Rightarrow> run_state \<times> (error + unit)" where
  "process_album server env cwd save_path lib st a =
     (let name = re_sub_nonword '' '' (album_title a) in
      if album_thumb a = None then (st, Inr ())
      else save_poster server env cwd save_path lib st name (album_images a))"

definition process_video ::
  "(string \<Rightarrow> bool) \<Rightarrow> environ \<Rightarrow> path \<Rightarrow> string option \<Rightarrow> library \<Rightarrow> run_state
     \<Rightarrow> child \<Rightarrow> run_state \<times> (error + unit)" where
  "process_video server env cwd save_path lib st c =
     (let name = video_name c in
      if child_thumb c = None then (st, Inr ())
      else save_poster server env cwd save_path lib st name (child_images c))"

text \<open>A \<open>for\<close> loop whose body may raise: the first exception ends it.\<close>

fun for_each ::
  "('s \<Rightarrow> 'a \<Rightarrow> 's \<times> (error + unit)) \<Rightarrow> 's \<Rightarrow> 'a list \<Rightarrow> 's \<times> (error + unit)" where
  "for_each body st [] = (st, Inr ())"
| "for_each body st (x # xs) =
     (case body st x of
        (st', Inl e) \<Rightarrow> (st', Inl e)
      | (st', Inr _) \<Rightarrow> for_each body st' xs)"

definition process_child ::
  "(string \<Rightarrow> bool) \<Rightarrow> environ \<Rightarrow> path \<Rightarrow> string option \<Rightarrow> library \<Rightarrow> string \<Rightarrow> run_state
     \<Rightarrow> child \<Rightarrow> run_state \<times> (error + unit)" where
  "process_child server env cwd save_path lib lib_type st c =
     (if lib_type = ''audio''
      then for_each (process_album server env cwd save_path lib) st (child_albums c)
      else process_video server env cwd save_path lib st c)"

definition process_library ::
  "(string \<Rightarrow> bool) \<Rightarrow> environ \<Rightarrow> path \<Rightarrow> string option \<Rightarrow> run_state \<Rightarrow> library
     \<Rightarrow> run_state \<times> (error + unit)" where
  "process_library server env cwd save_path st lib =
     (if section_type lib = ''photo'' then (st, Inr ())
      else if section_type lib \<in> set [''movie'', ''show'']
      then for_each (process_child server env cwd save_path lib ''video'') st (section_all lib)
      else if section_type lib = ''artist''
      then for_each (process_child server env cwd save_path lib ''audio'') st (section_all lib)
      else (st, Inr ()))"

definition download_loop ::
  "(string \<Rightarrow> bool) \<Rightarrow> environ \<Rightarrow> path \<Rightarrow> string option \<Rightarrow> filesystem \<Rightarrow> library list
     \<Rightarrow> run_state \<times> (error + unit)" where
  "download_loop server env cwd save_path fs0 plex_libraries =
     for_each (process_library server env cwd save_path)
       \<lparr>st_fs = fs0, st_save_dir_path = None\<rparr> plex_libraries"






section \<open>Facts about the string primitives\<close>

lemma py_find_ge: "- 1 \<le> py_find sub s"
  by (induction s) (auto simp: Let_def)

text \<open>\<open>find\<close> answers \<open>-1\<close> exactly when its argument is not a contiguous part.\<close>

lemma py_find_sublist: "py_find sub s = - 1 \<longleftrightarrow> \<not> sublist sub s"
proof (induction s)
  case Nil
  then show ?case by simp
next
  case (Cons c cs)
  have "py_find sub cs + 1 \<noteq> - 1"
    using py_find_ge [of sub cs] by arith
  with Cons show ?case
    by (simp add: Let_def sublist_Cons_right)
qed

lemma py_split_nonempty: "py_split sep s \<noteq> []"
  by (induction sep s rule: py_split.induct) (auto split: list.splits)

lemma py_split_no_occurrence: "\<not> sublist sep s \<Longrightarrow> py_split sep s = [s]"
  by (induction s) (auto simp: sublist_Cons_right)

text \<open>
  A separator whose first character does not occur again in it cannot overlap itself, so
  splitting across an occurrence leaves the split of what follows it as the tail.
\<close>

lemma py_split_after_sep:
  assumes sep: "sep \<noteq> []" and hd: "hd sep \<notin> set (tl sep)"
  shows "\<exists>pre. pre \<noteq> [] \<and> py_split sep (a @ sep @ r) = pre @ py_split sep r"
proof (induction "length a" arbitrary: a rule: less_induct)
  case less
  obtain d ds where sepd: "sep = d # ds" using sep by (cases sep) auto
  have dn: "d \<notin> set ds" using hd sepd by simp
  show ?case
  proof (cases a)
    case Nil
    have "py_split sep (sep @ r) = [] # py_split sep r" by (simp add: sepd)
    then show ?thesis using Nil by (intro exI[of _ "[[]]"]) simp
  next
    case (Cons c a')
    show ?thesis
    proof (cases "prefix sep (a @ sep @ r)")
      case True
      then obtain zs where zs: "a @ sep @ r = sep @ zs" by (auto simp: prefix_def)
      have le: "length sep \<le> length a"
      proof (rule ccontr)
        assume "\<not> length sep \<le> length a"
        then have l: "length a < length sep" by simp
        have "sep ! length a = (sep @ zs) ! length a" using l by (simp add: nth_append)
        also have "\<dots> = (a @ sep @ r) ! length a" using zs by simp
        also have "\<dots> = d" by (simp add: sepd nth_append)
        finally have e: "sep ! length a = d" .
        obtain k where k: "length a = Suc k" using Cons by simp
        have "k < length ds" using l k sepd by simp
        then have "ds ! k \<in> set ds" by simp
        moreover have "ds ! k = d" using e k sepd by simp
        ultimately show False using dn by simp
      qed
      have "take (length sep) (a @ sep @ r) = take (length sep) (sep @ zs)"
        using zs by simp
      then have "take (length sep) a = sep" using le by simp
      then have "a = sep @ drop (length sep) a"
        by (metis append_take_drop_id)
      then obtain a'' where a'': "a = sep @ a''" ..
      have eq: "py_split sep (a @ sep @ r) = [] # py_split sep (a'' @ sep @ r)"
        by (simp add: a'' sepd)
      have "length a'' < length a" using a'' sep by simp
      from less[OF this] obtain pre where
        "pre \<noteq> []" "py_split sep (a'' @ sep @ r) = pre @ py_split sep r" by blast
      with eq show ?thesis by (intro exI[of _ "[] # pre"]) simp
    next
      case False
      have "length a' < length a" using Cons by simp
      from less[OF this] obtain pre where
        pre: "pre \<noteq> []" "py_split sep (a' @ sep @ r) = pre @ py_split sep r" by blast
      obtain p ps where "pre = p # ps" using pre(1) by (cases pre) auto
      then have "py_split sep (a @ sep @ r) = ((c # p) # ps) @ py_split sep r"
        using False Cons pre(2) by simp
      then show ?thesis by blast
    qed
  qed
qed

lemma item_last_py_split_after_sep:
  assumes "sep \<noteq> []" and "hd sep \<notin> set (tl sep)" and "\<not> sublist sep r"
  shows "item_last (py_split sep (a @ sep @ r)) = Inr r"
proof -
  from py_split_after_sep [OF assms(1,2)] obtain pre where
    "py_split sep (a @ sep @ r) = pre @ py_split sep r" by blast
  then have "py_split sep (a @ sep @ r) = pre @ [r]"
    using assms(3) by (simp add: py_split_no_occurrence)
  then show ?thesis by (cases pre) simp_all
qed

lemma py_split_char_first:
  "c \<notin> set x \<Longrightarrow> py_split [c] (x @ c # b) = x # py_split [c] b"
  by (induction x) auto

lemma py_split_ws_word:
  assumes "w \<noteq> []" and "\<forall>c\<in>set w. \<not> is_space c" and "b = [] \<or> is_space (hd b)"
  shows "py_split_ws (w @ b) = w # py_split_ws b"
proof -
  obtain c w' where w: "w = c # w'" using assms(1) by (cases w) auto
  have t: "takeWhile (\<lambda>x. \<not> is_space x) b = []"
    using assms(3) by (cases b) auto
  have d: "dropWhile (\<lambda>x. \<not> is_space x) b = b"
    using assms(3) by (cases b) auto
  show ?thesis using assms(2) t d by (simp add: w)
qed

section \<open>Facts about GUID extraction\<close>

text \<open>Sources whose name does not occur in the title are passed over.\<close>

lemma guid_loop_skip:
  "\<forall>s\<in>set skipped. \<not> sublist s title \<Longrightarrow>
   guid_loop title full (skipped @ rest) = guid_loop title full rest"
  by (induction skipped) (auto simp: py_find_sublist)

text \<open>The first source whose name occurs decides the result.\<close>

lemma guid_loop_found:
  "sublist source title \<Longrightarrow>
   guid_loop title full (source # rest) =
     bind (extract_guid source title)
       (\<lambda>guid. if full then Inr (source @ ''://'' @ guid) else Inr guid)"
  by (simp add: py_find_sublist)

text \<open>
  Extraction at a well-formed token \<open>{source-ident}\<close> that no further \<open>{source-\<close>
  delimiter follows.
\<close>

lemma extract_guid_token:
  assumes "source \<noteq> ''plex''" and "CHR ''{'' \<notin> set source"
    and "CHR ''}'' \<notin> set ident"
    and "\<not> sublist (''{'' @ source @ ''-'') (ident @ ''}'' @ b)"
  shows "extract_guid source (a @ (''{'' @ source @ ''-'') @ ident @ ''}'' @ b) = Inr ident"
proof -
  have "item_last (py_split (''{'' @ source @ ''-'')
          (a @ (''{'' @ source @ ''-'') @ (ident @ ''}'' @ b))) = Inr (ident @ ''}'' @ b)"
    using assms(2,4) by (intro item_last_py_split_after_sep) simp_all
  moreover have "item_first (py_split ''}'' (ident @ ''}'' @ b)) = Inr ident"
    using py_split_char_first [OF assms(3), of b] by simp
  ultimately show ?thesis
    using assms(1) by (simp add: extract_guid_def)
qed

text \<open>
  Extraction at a Plex token: \<open>plex://\<close> followed by a whitespace-free word \<open>w\<close> that ends
  the string or is followed by whitespace, with no later \<open>plex://\<close>.
\<close>

lemma extract_guid_plex:
  assumes "w \<noteq> []" and "\<forall>c\<in>set w. \<not> is_space c" and "b = [] \<or> is_space (hd b)"
    and "\<not> sublist ''plex://'' (w @ b)"
  shows "extract_guid ''plex'' (a @ ''plex://'' @ w @ b) = Inr w"
proof -
  have "item_last (py_split ''plex://'' (a @ ''plex://'' @ (w @ b))) = Inr (w @ b)"
    using assms(4) by (intro item_last_py_split_after_sep) simp_all
  moreover have "item_first (py_split_ws (w @ b)) = Inr w"
    using py_split_ws_word [OF assms(1,2,3)] by simp
  ultimately show ?thesis
    by (simp add: extract_guid_def)
qed

text \<open>
  The search order: the sources of the kind are tried in the order of the table, and the
  first one whose name occurs in the title decides the result.
\<close>

lemma get_item_guid_priority:
  assumes "lib_sources lib_type = Some (skipped @ source # rest)"
    and "\<forall>s\<in>set skipped. \<not> sublist s title"
    and "sublist source title"
  shows "get_item_guid title lib_type full =
           bind (extract_guid source title)
             (\<lambda>guid. if full then Inr (source @ ''://'' @ guid) else Inr guid)"
  using assms by (simp add: get_item_guid_def guid_loop_skip py_find_sublist)

text \<open>Without any source name in the title the sentinel is returned.\<close>

lemma get_item_guid_no_source_name:
  assumes "lib_type = ''movie'' \<or> lib_type = ''show''"
    and "\<not> sublist ''tmdb'' title" and "\<not> sublist ''imdb'' title"
    and "\<not> sublist ''tvdb'' title" and "\<not> sublist ''plex'' title"
  shows "get_item_guid title lib_type full = Inr ''-1''"
  using assms by (auto simp: get_item_guid_def lib_sources_def py_find_sublist)

lemma sublist_source_token: "sublist source (a @ (''{'' @ source @ ''-'') @ r)"
proof -
  have "a @ (''{'' @ source @ ''-'') @ r = (a @ ''{'') @ source @ (''-'' @ r)" by simp
  then show ?thesis unfolding sublist_def by blast
qed

text \<open>
  A movie title with a well-formed tmdb token, not followed by another \<open>{tmdb-\<close>, yields
  the tmdb identifier whatever else the title holds; an imdb token is used when the name
  \<open>tmdb\<close> does not occur at all.
\<close>

lemma get_item_guid_movie_tmdb:
  assumes "CHR ''}'' \<notin> set ident" and "\<not> sublist ''{tmdb-'' (ident @ ''}'' @ b)"
  shows "get_item_guid (a @ ''{tmdb-'' @ ident @ ''}'' @ b) ''movie'' False = Inr ident"
proof -
  let ?t = "a @ (''{'' @ ''tmdb'' @ ''-'') @ ident @ ''}'' @ b"
  have e: "extract_guid ''tmdb'' ?t = Inr ident"
    using assms by (intro extract_guid_token) simp_all
  have l: "lib_sources ''movie'' = Some ([] @ ''tmdb'' # [''imdb'', ''plex''])"
    by (simp add: lib_sources_def)
  show ?thesis
    using get_item_guid_priority [OF l _ sublist_source_token, of a "ident @ ''}'' @ b" False] e
    by simp
qed

lemma get_item_guid_movie_imdb:
  assumes "CHR ''}'' \<notin> set ident" and "\<not> sublist ''{imdb-'' (ident @ ''}'' @ b)"
    and "\<not> sublist ''tmdb'' (a @ ''{imdb-'' @ ident @ ''}'' @ b)"
  shows "get_item_guid (a @ ''{imdb-'' @ ident @ ''}'' @ b) ''movie'' False = Inr ident"
proof -
  let ?t = "a @ (''{'' @ ''imdb'' @ ''-'') @ ident @ ''}'' @ b"
  have e: "extract_guid ''imdb'' ?t = Inr ident"
    using assms by (intro extract_guid_token) simp_all
  have l: "lib_sources ''movie'' = Some ([''tmdb''] @ ''imdb'' # [''plex''])"
    by (simp add: lib_sources_def)
  show ?thesis
    using get_item_guid_priority [OF l _ sublist_source_token, of a "ident @ ''}'' @ b" False]
      e assms(3)
    by simp
qed

text \<open>
  A movie title whose Plex token is \<open>plex://movie/456\<close>, with no later \<open>plex://\<close> and
  with neither \<open>tmdb\<close> nor \<open>imdb\<close> occurring anywhere in it.
\<close>

lemma get_item_guid_plex_only:
  assumes "\<not> sublist ''tmdb'' (a @ ''plex://movie/456'' @ b)"
    and "\<not> sublist ''imdb'' (a @ ''plex://movie/456'' @ b)"
    and "b = [] \<or> is_space (hd b)"
    and "\<not> sublist ''plex://'' b"
  shows "get_item_guid (a @ ''plex://movie/456'' @ b) ''movie'' False = Inr ''movie/456'' \<and>
         get_item_guid (a @ ''plex://movie/456'' @ b) ''movie'' True = Inr ''plex://movie/456''"
proof -
  let ?t = "a @ ''plex://movie/456'' @ b"
  have t: "?t = a @ ''plex://'' @ ''movie/456'' @ b" by simp
  have n: "\<not> sublist ''plex://'' (''movie/456'' @ b)"
    using assms(4) by (simp add: sublist_Cons_right)
  have w: "\<forall>c\<in>set ''movie/456''. \<not> is_space c"
    by (simp add: is_space_def)
  have e: "extract_guid ''plex'' ?t = Inr ''movie/456''"
    unfolding t by (rule extract_guid_plex [OF _ w assms(3) n]) simp
  have "?t = (a @ []) @ ''plex'' @ (''://movie/456'' @ b)" by simp
  then have s: "sublist ''plex'' ?t" unfolding sublist_def by blast
  have l: "lib_sources ''movie'' = Some ([''tmdb'', ''imdb''] @ ''plex'' # [])"
    by (simp add: lib_sources_def)
  have k: "\<forall>s\<in>set [''tmdb'', ''imdb'']. \<not> sublist s ?t"
    using assms(1,2) by simp
  show ?thesis
    using get_item_guid_priority [OF l k s] e by simp
qed

subsection \<open>The claims about \<open>get_item_guid\<close>\<close>

text \<open>
  C1.  The claim: for every identifier string and kind movie or show, the identifier of
  the highest-priority source whose token is present is returned (movie: tmdb, imdb,
  plex; show: tvdb, tmdb, plex).  The loop decides that a source is present by looking for
  its bare name, not for its token.  The movie title below holds one token, the imdb one
  with identifier \<open>tt0111161\<close>, and the name \<open>tmdb\<close> as a plain word: the tmdb branch is
  taken, finds no \<open>{tmdb-\<close> delimiter, and returns the title up to its first closing
  brace instead of \<open>tt0111161\<close>.  (\<open>get_item_guid_priority\<close>, \<open>get_item_guid_movie_tmdb\<close>
  and \<open>get_item_guid_movie_imdb\<close> show the order the claim describes on titles where
  the name found first has a token.)
\<close>

theorem get_item_guid_name_shadows_token:
  "\<not> sublist ''{tmdb-'' ''Best of tmdb {imdb-tt0111161}'' \<and>
   ''Best of tmdb {imdb-tt0111161}'' = ''Best of tmdb '' @ ''{imdb-'' @ ''tt0111161'' @ ''}'' \<and>
   get_item_guid ''Best of tmdb {imdb-tt0111161}'' ''movie'' False
     = Inr ''Best of tmdb {imdb-tt0111161'' \<and>
   get_item_guid ''Best of tmdb {imdb-tt0111161}'' ''movie'' False \<noteq> Inr ''tt0111161''"
  by (simp add: get_item_guid_def lib_sources_def extract_guid_def sublist_Cons_right)

text \<open>
  C2.  The claim: a string with no recognized token (no \<open>{tmdb-...}\<close>, \<open>{imdb-...}\<close>,
  \<open>{tvdb-...}\<close> and no \<open>plex://...\<close>) gives the sentinel \<open>-1\<close> for both kinds, also when
  it merely contains a source name as a plain substring.  The title below has no token
  delimiter at all but contains the word \<open>tmdb\<close>; for both kinds the whole title is
  returned, not \<open>-1\<close>.  (\<open>get_item_guid_no_source_name\<close> gives the sentinel when no
  source name occurs in the title.)
\<close>

theorem get_item_guid_bare_name_no_sentinel:
  "\<not> sublist ''{tmdb-'' ''The tmdb Story (2020)'' \<and>
   \<not> sublist ''{imdb-'' ''The tmdb Story (2020)'' \<and>
   \<not> sublist ''{tvdb-'' ''The tmdb Story (2020)'' \<and>
   \<not> sublist ''plex://'' ''The tmdb Story (2020)'' \<and>
   get_item_guid ''The tmdb Story (2020)'' ''movie'' False = Inr ''The tmdb Story (2020)'' \<and>
   get_item_guid ''The tmdb Story (2020)'' ''show'' False = Inr ''The tmdb Story (2020)'' \<and>
   get_item_guid ''The tmdb Story (2020)'' ''movie'' False \<noteq> Inr ''-1''"
  by (simp add: get_item_guid_def lib_sources_def extract_guid_def sublist_Cons_right)

text \<open>
  C5.  For every identifier string and every value of \<open>full\<close>, a kind other than
  \<open>movie\<close> and \<open>show\<close> makes \<open>get_item_guid\<close> raise \<open>UnknownType\<close>; no value is
  returned, in particular not \<open>-1\<close>.
\<close>

theorem get_item_guid_unknown_kind:
  "lib_type \<noteq> ''movie'' \<Longrightarrow> lib_type \<noteq> ''show'' \<Longrightarrow>
   get_item_guid title lib_type full = Inl UnknownType"
  by (simp add: get_item_guid_def lib_sources_def)

theorem get_item_guid_unknown_kind_witness:
  "''album'' \<noteq> ''movie'' \<and> ''album'' \<noteq> ''show'' \<and>
   get_item_guid ''{tmdb-123}'' ''album'' False = Inl UnknownType \<and>
   get_item_guid ''{tmdb-123}'' ''album'' False \<noteq> Inr ''-1''"
  using get_item_guid_unknown_kind [of "''album''" "''{tmdb-123}''" False] by simp

text \<open>
  C6.  As stated (every string containing a \<open>{tmdb-123}\<close> token gives \<open>123\<close>, or
  \<open>tmdb://123\<close> in full form, for kind movie) the claim fails when a further
  \<open>{tmdb-\<close> delimiter follows the token: the split keeps the text after the last
  delimiter, so the last tmdb token decides.
\<close>

theorem get_item_guid_tmdb_123_counterexample:
  "''{tmdb-123} {tmdb-456}'' = [] @ ''{tmdb-123}'' @ '' {tmdb-456}'' \<and>
   get_item_guid ''{tmdb-123} {tmdb-456}'' ''movie'' False = Inr ''456'' \<and>
   get_item_guid ''{tmdb-123} {tmdb-456}'' ''movie'' True = Inr ''tmdb://456''"
  by (simp add: get_item_guid_def lib_sources_def extract_guid_def)

text \<open>
  C6, amended.  For every identifier string containing a \<open>{tmdb-123}\<close> token that no
  later occurrence of the delimiter \<open>{tmdb-\<close> follows, \<open>get_item_guid\<close> with kind movie
  returns \<open>123\<close> when \<open>full\<close> is false and \<open>tmdb://123\<close> when it is true.
\<close>

theorem get_item_guid_tmdb_123:
  assumes "\<not> sublist ''{tmdb-'' b"
  shows "get_item_guid (a @ ''{tmdb-123}'' @ b) ''movie'' False = Inr ''123'' \<and>
         get_item_guid (a @ ''{tmdb-123}'' @ b) ''movie'' True = Inr ''tmdb://123''"
proof -
  let ?t = "a @ ''{tmdb-123}'' @ b"
  have t: "?t = a @ (''{'' @ ''tmdb'' @ ''-'') @ ''123'' @ ''}'' @ b" by simp
  have n: "\<not> sublist (''{'' @ ''tmdb'' @ ''-'') (''123'' @ ''}'' @ b)"
    using assms by (simp add: sublist_Cons_right)
  have e: "extract_guid ''tmdb'' ?t = Inr ''123''"
    unfolding t by (rule extract_guid_token [OF _ _ _ n]) simp_all
  have s: "sublist ''tmdb'' ?t"
    using sublist_source_token [of "''tmdb''" a "''123}'' @ b"] by simp
  have l: "lib_sources ''movie'' = Some ([] @ ''tmdb'' # [''imdb'', ''plex''])"
    by (simp add: lib_sources_def)
  show ?thesis
    using get_item_guid_priority [OF l _ s] e by simp
qed

theorem get_item_guid_tmdb_123_witness:
  "\<not> sublist ''{tmdb-'' '' {imdb-tt1375666}'' \<and>
   get_item_guid ''Inception (2010) {tmdb-123} {imdb-tt1375666}'' ''movie'' False
     = Inr ''123'' \<and>
   get_item_guid ''Inception (2010) {tmdb-123} {imdb-tt1375666}'' ''movie'' True
     = Inr ''tmdb://123''"
proof -
  have h: "\<not> sublist ''{tmdb-'' '' {imdb-tt1375666}''"
    by (simp add: sublist_Cons_right)
  show ?thesis
    using h get_item_guid_tmdb_123 [OF h, of "''Inception (2010) ''"] by simp
qed

text \<open>
  C7.  The claim: a string whose only recognized token is \<open>plex://movie/456\<close> gives
  \<open>movie/456\<close>, or \<open>plex://movie/456\<close> in full form, for kind movie.  The title below
  has that token and no other, but the word \<open>tmdb\<close> precedes it: the tmdb branch is
  taken and the whole title comes back.  (\<open>get_item_guid_plex_only\<close> gives the claimed
  results when neither \<open>tmdb\<close> nor \<open>imdb\<close> occurs in the title.)
\<close>

theorem get_item_guid_plex_token_shadowed:
  "\<not> sublist ''{tmdb-'' ''tmdb plex://movie/456'' \<and>
   \<not> sublist ''{imdb-'' ''tmdb plex://movie/456'' \<and>
   get_item_guid ''tmdb plex://movie/456'' ''movie'' False = Inr ''tmdb plex://movie/456'' \<and>
   get_item_guid ''tmdb plex://movie/456'' ''movie'' True
     = Inr ''tmdb://tmdb plex://movie/456''"
  by (simp add: get_item_guid_def lib_sources_def extract_guid_def sublist_Cons_right)

section \<open>Facts about the file system and the save paths\<close>

lemma grows_by_refl: "grows_by A fs fs"
  by (simp add: grows_by_def)

lemma grows_by_trans:
  "grows_by A fs fs1 \<Longrightarrow> grows_by B fs1 fs2 \<Longrightarrow> A \<union> B \<subseteq> C \<Longrightarrow> grows_by C fs fs2"
  unfolding grows_by_def by (intro conjI) (simp_all, blast+)

lemma mkdir_grows: "grows_by {p} fs (fst (mkdir fs p))"
  by (auto simp: mkdir_def grows_by_def)

lemma self_in_ancestors: "parts p \<noteq> [] \<Longrightarrow> p \<in> set (ancestors_and_self p)"
proof -
  assume "parts p \<noteq> []"
  then have "length (parts p) \<in> {1..<Suc (length (parts p))}" by (cases "parts p") auto
  then have "Path (is_abs p) (take (length (parts p)) (parts p)) \<in> set (ancestors_and_self p)"
    unfolding ancestors_and_self_def set_map set_upt by (rule imageI)
  then show ?thesis by simp
qed

lemma ancestors_parent:
  "set (ancestors_and_self (path_parent p)) \<subseteq> set (ancestors_and_self p)"
proof
  fix q assume "q \<in> set (ancestors_and_self (path_parent p))"
  then obtain n where n: "1 \<le> n" "n \<le> length (parts p) - 1"
    and q: "q = Path (is_abs p) (take n (butlast (parts p)))"
    by (auto simp: ancestors_and_self_def path_parent_def)
  from n have "take n (butlast (parts p)) = take n (parts p)"
    by (simp add: take_butlast)
  with n q show "q \<in> set (ancestors_and_self p)"
    by (auto simp: ancestors_and_self_def)
qed

lemma ancestors_shorter:
  "q \<in> set (ancestors_and_self p) \<Longrightarrow> length (parts q) \<le> length (parts p)"
  by (auto simp: ancestors_and_self_def)

lemma makedirs_grows: "grows_by (set (ancestors_and_self p)) fs (fst (makedirs fs p))"
proof (induction fs p rule: makedirs.induct)
  case (1 fs p)
  define c where
    "c \<longleftrightarrow> parts p \<noteq> [] \<and> parts (path_parent p) \<noteq> [] \<and> \<not> os_path_exists fs (path_parent p)"
  define first where
    "first = (if c
            then (case makedirs fs (path_parent p) of
                    (fs1, Inl e) \<Rightarrow> if e = FileExistsError then (fs1, Inr ()) else (fs1, Inl e)
                  | (fs1, Inr u) \<Rightarrow> (fs1, Inr u))
            else (fs, Inr ()))"
  have eq: "makedirs fs p =
              (case first of
                 (fs1, Inl e) \<Rightarrow> (fs1, Inl e)
               | (fs1, Inr _) \<Rightarrow>
                   (case mkdir fs1 p of
                      (fs2, Inl e) \<Rightarrow> if os_path_isdir fs2 p then (fs2, Inr ()) else (fs2, Inl e)
                    | (fs2, Inr u) \<Rightarrow> (fs2, Inr u)))"
    unfolding first_def c_def by (subst makedirs.simps) (rule refl)
  have f1: "grows_by (set (ancestors_and_self p)) fs (fst first)"
  proof (cases c)
    case True
    then have "fst first = fst (makedirs fs (path_parent p))"
      by (auto simp: first_def split: prod.splits sum.splits)
    moreover have "grows_by (set (ancestors_and_self (path_parent p))) fs
                     (fst (makedirs fs (path_parent p)))"
      using True unfolding c_def by (intro "1.IH") simp_all
    ultimately show ?thesis
      using ancestors_parent [of p] grows_by_refl [of "{}" "fst (makedirs fs (path_parent p))"]
      by (auto intro: grows_by_trans)
  next
    case False
    then show ?thesis by (simp add: first_def grows_by_refl)
  qed
  have m: "grows_by (set (ancestors_and_self p)) (fst first) (fst (mkdir (fst first) p))"
  proof (cases "parts p = []")
    case True
    then have "fst (mkdir (fst first) p) = fst first"
      by (simp add: mkdir_def present_def)
    then show ?thesis by (simp add: grows_by_refl)
  next
    case False
    from self_in_ancestors [OF this] mkdir_grows [of p "fst first"] show ?thesis
      by (auto simp: grows_by_def)
  qed
  have "fst (makedirs fs p) = fst first \<or> fst (makedirs fs p) = fst (mkdir (fst first) p)"
    unfolding eq by (cases first) (auto split: prod.splits sum.splits)
  with f1 m show ?case
    by (auto intro: grows_by_trans)
qed

lemma makedirs_files: "files (fst (makedirs fs p)) = files fs"
  using makedirs_grows [of p fs] by (simp add: grows_by_def)

lemma makedirs_limits:
  "too_long (fst (makedirs fs p)) q = too_long fs q"
  using makedirs_grows [of p fs] by (simp add: grows_by_def too_long_def)

lemma makedirs_dirs:
  "set (dirs (fst (makedirs fs p))) \<subseteq> set (dirs fs) \<union> set (ancestors_and_self p)"
  "set (dirs fs) \<subseteq> set (dirs (fst (makedirs fs p)))"
  using makedirs_grows [of p fs] by (simp_all add: grows_by_def)

lemma makedirs_creates:
  assumes "snd (makedirs fs p) = Inr ()"
  shows "parts p = [] \<or> p \<in> set (dirs (fst (makedirs fs p)))"
  using assms
  by (subst (asm) makedirs.simps, subst makedirs.simps)
     (auto simp: mkdir_def os_path_isdir_def split: prod.splits sum.splits if_splits)

lemma makedirs_present_below:
  "length (parts d) < length (parts q) \<Longrightarrow> present (fst (makedirs fs d)) q = present fs q"
  using makedirs_dirs [of fs d] ancestors_shorter [of q d]
  by (auto simp: present_def makedirs_files)

lemma makedirs_exists_below:
  "length (parts d) < length (parts q) \<Longrightarrow>
   path_exists (fst (makedirs fs d)) q = path_exists fs q"
  by (simp add: path_exists_def makedirs_limits makedirs_present_below)

lemma probe_first:
  assumes "\<And>j. \<exists>p. candidate ip name j = Inr p"
  shows "\<exists>k p. i \<le> k \<and> candidate ip name k = Inr p \<and>
           (\<forall>j. i \<le> j \<and> j < k \<longrightarrow> (\<exists>q. candidate ip name j = Inr q \<and> path_exists fs q = Inr True)) \<and>
           (case path_exists fs p of
              Inl e \<Rightarrow> probe fs ip name i = Inl e
            | Inr b \<Rightarrow> \<not> b \<and> probe fs ip name i = Inr k)"
  using assms
proof (induction fs ip name i rule: probe.induct)
  case (1 fs ip name i)
  from "1.prems" obtain p where p: "candidate ip name i = Inr p" by blast
  show ?case
  proof (cases "path_exists fs p")
    case (Inl e)
    with p have "probe fs ip name i = Inl e" by (simp add: probe.simps [of fs ip name i])
    with p Inl show ?thesis by (intro exI [of _ i] exI [of _ p]) auto
  next
    case (Inr b)
    show ?thesis
    proof (cases b)
      case False
      with p Inr have "probe fs ip name i = Inr i" by (simp add: probe.simps [of fs ip name i])
      with p Inr False show ?thesis by (intro exI [of _ i] exI [of _ p]) auto
    next
      case True
      with p Inr have e: "probe fs ip name i = probe fs ip name (i + 1)"
        by (simp add: probe.simps [of fs ip name i])
      from "1.IH" [OF p Inr True "1.prems"]
      obtain k q where k: "i + 1 \<le> k" "candidate ip name k = Inr q"
        and below: "\<forall>j. i + 1 \<le> j \<and> j < k \<longrightarrow>
                      (\<exists>q. candidate ip name j = Inr q \<and> path_exists fs q = Inr True)"
        and res: "case path_exists fs q of
              Inl e \<Rightarrow> probe fs ip name (i + 1) = Inl e
            | Inr b \<Rightarrow> \<not> b \<and> probe fs ip name (i + 1) = Inr k"
        by blast
      have "\<forall>j. i \<le> j \<and> j < k \<longrightarrow> (\<exists>q. candidate ip name j = Inr q \<and> path_exists fs q = Inr True)"
      proof (intro allI impI)
        fix j assume j: "i \<le> j \<and> j < k"
        show "\<exists>q. candidate ip name j = Inr q \<and> path_exists fs q = Inr True"
        proof (cases "j = i")
          case True
          with p Inr \<open>b\<close> show ?thesis by simp
        next
          case False
          with j have "i + 1 \<le> j \<and> j < k" by simp
          with below show ?thesis by blast
        qed
      qed
      moreover have "i \<le> k" using k(1) by simp
      ultimately show ?thesis using k(2) res unfolding e
        by (intro exI [of _ k] exI [of _ q]) simp
    qed
  qed
qed

lemma str_nat_digits: "CHR ''/'' \<notin> set (str_nat n)"
proof (induction n rule: str_nat.induct)
  case (1 n)
  have d: "digit_char k \<noteq> CHR ''/''" if "k < 10" for k
  proof -
    from that have "digit_char k \<in> set ''0123456789''"
      unfolding digit_char_def by (intro nth_mem) simp
    then show ?thesis by auto
  qed
  show ?case
  proof (cases "n < 10")
    case True
    then show ?thesis using d [of n] by (subst str_nat.simps) simp
  next
    case False
    then show ?thesis using "1.IH" d [of "n mod 10"] by (subst str_nat.simps) simp
  qed
qed

lemma py_split_plain: "c \<notin> set s \<Longrightarrow> py_split [c] s = [s]"
  by (induction s) auto

lemma joinpath_plain:
  assumes "CHR ''/'' \<notin> set x" and "x \<noteq> []" and "x \<noteq> ''.''"
  shows "joinpath d x = Path (is_abs d) (parts d @ [x])"
proof -
  have "\<not> prefix ''/'' x" using assms(1) by (cases x) auto
  then show ?thesis
    using assms by (simp add: joinpath_def pure_path_def py_split_plain)
qed

lemma image_path_plain:
  "CHR ''/'' \<notin> set name \<Longrightarrow>
   joinpath d (name @ ''.png'') = Path (is_abs d) (parts d @ [name @ ''.png''])"
  by (rule joinpath_plain) auto

lemma rfind_png: "py_rfind_char CHR ''.'' (name @ ''.png'') = int (length name)"
  by (simp add: py_rfind_char_def)

lemma suffix_png:
  "path_suffix (Path r (ps @ [name @ ''.png''])) = (if name = [] then [] else ''.png'')"
  by (simp add: path_suffix_def path_name_def rfind_png Let_def)

lemma candidate_plain:
  assumes "CHR ''/'' \<notin> set name" and "name \<noteq> []"
  shows "candidate (Path r (ps @ [name @ ''.png''])) name i
           = Inr (Path r (ps @ [name @ ''_'' @ str_nat i @ ''.png'']))"
  using assms str_nat_digits [of i]
  by (auto simp: candidate_def with_stem_def with_name_def suffix_png path_name_def)

lemma candidate_defined:
  assumes "CHR ''/'' \<notin> set name"
  shows "\<exists>p. candidate (Path r (ps @ [name @ ''.png''])) name i = Inr p"
  using assms str_nat_digits [of i] str_nat_nonempty [of i]
  by (cases "str_nat i") (auto simp: candidate_def with_stem_def with_name_def suffix_png path_name_def)

lemma candidate_length:
  "candidate (Path r (ps @ [x])) name i = Inr p \<Longrightarrow> is_abs p = r \<and> length (parts p) = Suc (length ps)"
  by (auto simp: candidate_def with_stem_def with_name_def split: if_splits)


lemma probe_result:
  "probe fs ip name i = Inr k \<Longrightarrow>
   i \<le> k \<and> (\<exists>p. candidate ip name k = Inr p \<and> path_exists fs p = Inr False)"
proof (induction fs ip name i rule: probe.induct)
  case (1 fs ip name i)
  show ?case
  proof (cases "candidate ip name i")
    case (Inl e)
    with "1.prems" show ?thesis by (simp add: probe.simps [of fs ip name i])
  next
    case (Inr p)
    show ?thesis
    proof (cases "path_exists fs p")
      case (Inl e)
      with Inr "1.prems" show ?thesis by (simp add: probe.simps [of fs ip name i])
    next
      case b: (Inr b)
      show ?thesis
      proof (cases b)
        case True
        with Inr b "1.prems" have "probe fs ip name (i + 1) = Inr k"
          by (simp add: probe.simps [of fs ip name i])
        from "1.IH" [OF Inr b True this] show ?thesis by auto
      next
        case False
        with Inr b "1.prems" have "k = i" by (simp add: probe.simps [of fs ip name i])
        with Inr b False show ?thesis by auto
      qed
    qed
  qed
qed

lemma create_save_path_fst:
  "fst (create_save_path cwd fs save_path library_name name)
     = fst (makedirs fs (save_dir cwd save_path library_name))"
  by (simp add: create_save_path_def Let_def split: prod.splits sum.splits)

lemma create_save_path_makedirs_failed:
  "snd (makedirs fs (save_dir cwd save_path library_name)) = Inl e \<Longrightarrow>
   snd (create_save_path cwd fs save_path library_name name) = Inl e"
  by (cases "makedirs fs (save_dir cwd save_path library_name)")
     (simp add: create_save_path_def)

text \<open>
  What \<open>create_save_path\<close> answers once the directory is made, for a name without a
  separator: the error of the first test that fails; or the first path, when it is free;
  or the probed path of the least index that is not in use, and the error of its test
  when that fails.
\<close>

lemma create_save_path_outcome:
  assumes "CHR ''/'' \<notin> set name"
    and "snd (makedirs fs (save_dir cwd save_path library_name)) = Inr ()"
  shows "case path_exists fs (png_in (save_dir cwd save_path library_name) name) of
           Inl e \<Rightarrow> snd (create_save_path cwd fs save_path library_name name) = Inl e
         | Inr b \<Rightarrow>
             if \<not> b
             then snd (create_save_path cwd fs save_path library_name name)
                    = Inr (png_in (save_dir cwd save_path library_name) name)
             else \<exists>k p. 1 \<le> k \<and>
                    candidate (png_in (save_dir cwd save_path library_name) name) name k = Inr p \<and>
                    (\<forall>j. 1 \<le> j \<and> j < k \<longrightarrow>
                       (\<exists>q. candidate (png_in (save_dir cwd save_path library_name) name) name j
                              = Inr q \<and> path_exists fs q = Inr True)) \<and>
                    (case path_exists fs p of
                       Inl e \<Rightarrow> snd (create_save_path cwd fs save_path library_name name) = Inl e
                     | Inr b' \<Rightarrow> \<not> b' \<and>
                         snd (create_save_path cwd fs save_path library_name name) = Inr p)"
proof -
  let ?d = "save_dir cwd save_path library_name"
  let ?ip = "png_in ?d name"
  let ?R = "create_save_path cwd fs save_path library_name name"
  obtain fs' where m: "makedirs fs ?d = (fs', Inr ())"
    using assms(2) by (cases "makedirs fs ?d") auto
  then have fs': "fs' = fst (makedirs fs ?d)" by simp
  have ip: "joinpath ?d (name @ ''.png'') = ?ip"
    using assms(1) by (simp add: image_path_plain png_in_def)
  have ex: "path_exists fs' q = path_exists fs q" if "length (parts q) = Suc (length (parts ?d))" for q
    unfolding fs' using that by (intro makedirs_exists_below) simp
  have exc: "path_exists fs' q = path_exists fs q" if "candidate ?ip name j = Inr q" for q j
    using candidate_length [of "is_abs ?d" "parts ?d" "name @ ''.png''" name j q] that
    by (intro ex) (simp add: png_in_def)
  have exi: "path_exists fs' ?ip = path_exists fs ?ip"
    by (intro ex) (simp add: png_in_def)
  show ?thesis
  proof (cases "path_exists fs ?ip")
    case (Inl e)
    then have "snd ?R = Inl e"
      using m ip exi by (simp add: create_save_path_def Let_def)
    with Inl show ?thesis by simp
  next
    case (Inr b)
    show ?thesis
    proof (cases b)
      case False
      then have "snd ?R = Inr ?ip"
        using m ip exi Inr by (simp add: create_save_path_def Let_def)
      with Inr False show ?thesis by simp
    next
      case True
      have r: "snd ?R = bind (probe fs' ?ip name 1) (candidate ?ip name)"
        using m ip exi Inr True by (simp add: create_save_path_def Let_def)
      have "\<exists>q. candidate ?ip name j = Inr q" for j
        unfolding png_in_def using assms(1) by (rule candidate_defined)
      from probe_first [of ?ip name 1 fs', OF this]
      obtain k p where k: "1 \<le> k" and p: "candidate ?ip name k = Inr p"
        and below: "\<forall>j. 1 \<le> j \<and> j < k \<longrightarrow>
                      (\<exists>q. candidate ?ip name j = Inr q \<and> path_exists fs' q = Inr True)"
        and res: "case path_exists fs' p of
                    Inl e \<Rightarrow> probe fs' ?ip name 1 = Inl e
                  | Inr b \<Rightarrow> \<not> b \<and> probe fs' ?ip name 1 = Inr k"
        by blast
      have below': "\<forall>j. 1 \<le> j \<and> j < k \<longrightarrow>
                      (\<exists>q. candidate ?ip name j = Inr q \<and> path_exists fs q = Inr True)"
      proof (intro allI impI)
        fix j assume "1 \<le> j \<and> j < k"
        with below obtain q where q: "candidate ?ip name j = Inr q"
          and "path_exists fs' q = Inr True" by blast
        then have "path_exists fs q = Inr True" using exc [OF q] by simp
        with q show "\<exists>q. candidate ?ip name j = Inr q \<and> path_exists fs q = Inr True" by blast
      qed
      have res': "case path_exists fs p of
                    Inl e \<Rightarrow> snd ?R = Inl e
                  | Inr b' \<Rightarrow> \<not> b' \<and> snd ?R = Inr p"
        using res p unfolding r exc [OF p]
        by (cases "path_exists fs p") auto
      from k p below' res' have
        "\<exists>k p. 1 \<le> k \<and> candidate ?ip name k = Inr p \<and>
           (\<forall>j. 1 \<le> j \<and> j < k \<longrightarrow>
              (\<exists>q. candidate ?ip name j = Inr q \<and> path_exists fs q = Inr True)) \<and>
           (case path_exists fs p of
              Inl e \<Rightarrow> snd ?R = Inl e
            | Inr b' \<Rightarrow> \<not> b' \<and> snd ?R = Inr p)"
        by blast
      with Inr True show ?thesis by simp
    qed
  qed
qed

text \<open>A path that is returned passed its test, in the state after the call.\<close>

lemma create_save_path_fresh:
  assumes "snd (create_save_path cwd fs save_path library_name name) = Inr p"
  shows "path_exists (fst (create_save_path cwd fs save_path library_name name)) p = Inr False"
proof -
  let ?d = "save_dir cwd save_path library_name"
  let ?ip = "joinpath ?d (name @ ''.png'')"
  obtain fs' r where m: "makedirs fs ?d = (fs', r)" by (cases "makedirs fs ?d")
  from assms m obtain u where r: "r = Inr u"
    by (cases r) (simp_all add: create_save_path_def)
  from assms m r obtain b where b: "path_exists fs' ?ip = Inr b"
    by (cases "path_exists fs' ?ip") (simp_all add: create_save_path_def Let_def)
  have f: "fst (create_save_path cwd fs save_path library_name name) = fs'"
    using m by (simp add: create_save_path_fst)
  show ?thesis
  proof (cases b)
    case False
    with assms m r b show ?thesis unfolding f by (simp add: create_save_path_def Let_def)
  next
    case True
    with assms m r b have "bind (probe fs' ?ip name 1) (candidate ?ip name) = Inr p"
      by (simp add: create_save_path_def Let_def)
    then obtain k where k: "probe fs' ?ip name 1 = Inr k" and c: "candidate ?ip name k = Inr p"
      by (cases "probe fs' ?ip name 1") simp_all
    from probe_result [OF k] c show ?thesis unfolding f by auto
  qed
qed

subsection \<open>The claims about \<open>create_save_path\<close>\<close>



text \<open>With only \<open>Foo.png\<close> in the directory the result is \<open>Foo_1.png\<close>.\<close>

lemma create_save_path_Foo_1:
  "create_save_path (Path True [''home''])
     \<lparr>files = [Path False [''out'', ''Movies'', ''Foo.png'']],
       dirs = [Path False [''out''], Path False [''out'', ''Movies'']],
       name_max = 255, path_max = 4095\<rparr>
     (Some ''out'') ''Movies'' ''Foo''
   = (\<lparr>files = [Path False [''out'', ''Movies'', ''Foo.png'']],
        dirs = [Path False [''out''], Path False [''out'', ''Movies'']],
        name_max = 255, path_max = 4095\<rparr>,
      Inr (Path False [''out'', ''Movies'', ''Foo_1.png'']))"
  by (simp add: create_save_path_def makedirs.simps mkdir_def path_parent_def
        os_path_exists_def os_path_isdir_def
        save_dir_def joinpath_def pure_path_def path_exists_def present_def too_long_def
        fs_bytes_def path_bytes_def candidate_def with_stem_def with_name_def
        path_suffix_def path_name_def py_rfind_char_def str_nat.simps digit_char_def Let_def
        probe.simps)

text \<open>
  For the empty name the file \<open>.png\<close> has no suffix in the sense of \<open>pathlib\<close>, so the
  probed paths are \<open>_1\<close>, \<open>_2\<close> and so on, without \<open>.png\<close>.
\<close>

lemma create_save_path_empty_name:
  "create_save_path (Path True [''home''])
     \<lparr>files = [Path False [''out'', ''Music'', ''.png'']],
       dirs = [Path False [''out''], Path False [''out'', ''Music'']],
       name_max = 255, path_max = 4095\<rparr>
     (Some ''out'') ''Music'' []
   = (\<lparr>files = [Path False [''out'', ''Music'', ''.png'']],
        dirs = [Path False [''out''], Path False [''out'', ''Music'']],
        name_max = 255, path_max = 4095\<rparr>,
      Inr (Path False [''out'', ''Music'', ''_1'']))"
  by (simp add: create_save_path_def makedirs.simps mkdir_def path_parent_def
        os_path_exists_def os_path_isdir_def
        save_dir_def joinpath_def pure_path_def path_exists_def present_def too_long_def
        fs_bytes_def path_bytes_def candidate_def with_stem_def with_name_def
        path_suffix_def path_name_def py_rfind_char_def str_nat.simps digit_char_def Let_def
        probe.simps)

text \<open>
  When the first path is in use and the name with the suffix \<open>_1\<close> is too long for
  the file system, the test of that path raises.  On a system with the limits of Linux
  this happens for a name of 251 letters: the name with \<open>.png\<close> has 255 bytes, the one
  with \<open>_1.png\<close> has 257.
\<close>

lemma create_save_path_name_too_long:
  assumes "CHR ''/'' \<notin> set name"
    and "snd (makedirs fs (save_dir cwd save_path library_name)) = Inr ()"
    and "path_exists fs (png_in (save_dir cwd save_path library_name) name) = Inr True"
    and "\<And>p. candidate (png_in (save_dir cwd save_path library_name) name) name 1 = Inr p
            \<Longrightarrow> too_long fs p"
  shows "snd (create_save_path cwd fs save_path library_name name) = Inl OSError"
proof -
  let ?ip = "png_in (save_dir cwd save_path library_name) name"
  let ?R = "create_save_path cwd fs save_path library_name name"
  from create_save_path_outcome [OF assms(1,2)] assms(3)
  obtain k p where k: "1 \<le> k" and p: "candidate ?ip name k = Inr p"
    and below: "\<forall>j. 1 \<le> j \<and> j < k \<longrightarrow>
                  (\<exists>q. candidate ?ip name j = Inr q \<and> path_exists fs q = Inr True)"
    and res: "case path_exists fs p of Inl e \<Rightarrow> snd ?R = Inl e
              | Inr b' \<Rightarrow> \<not> b' \<and> snd ?R = Inr p"
    by auto
  have "k = 1"
  proof (rule ccontr)
    assume "k \<noteq> 1"
    with k have "1 \<le> (1::nat) \<and> 1 < k" by simp
    with below obtain q where q: "candidate ?ip name 1 = Inr q" "path_exists fs q = Inr True"
      by blast
    from assms(4) [OF q(1)] q(2) show False by (simp add: path_exists_def)
  qed
  with p assms(4) have "too_long fs p" by simp
  then have "path_exists fs p = Inl OSError" by (simp add: path_exists_def)
  with res show ?thesis by simp
qed

lemma create_save_path_251_letters:
  "snd (create_save_path (Path True [''home''])
          \<lparr>files = [Path False [''out'', ''Movies'', replicate 251 CHR ''a'' @ ''.png'']],
            dirs = [Path False [''out''], Path False [''out'', ''Movies'']],
            name_max = 255, path_max = 4095\<rparr>
          (Some ''out'') ''Movies'' (replicate 251 CHR ''a'')) = Inl OSError"
proof -
  let ?n = "replicate 251 CHR ''a''"
  let ?fs = "\<lparr>files = [Path False [''out'', ''Movies'', ?n @ ''.png'']],
              dirs = [Path False [''out''], Path False [''out'', ''Movies'']],
              name_max = 255, path_max = 4095\<rparr>"
  have d: "save_dir (Path True [''home'']) (Some ''out'') ''Movies''
             = Path False [''out'', ''Movies'']"
    by (simp add: save_dir_def joinpath_def pure_path_def)
  have n: "CHR ''/'' \<notin> set ?n" by simp
  have m: "snd (makedirs ?fs (save_dir (Path True [''home'']) (Some ''out'') ''Movies'')) = Inr ()"
    unfolding d
    by (simp add: makedirs.simps mkdir_def path_parent_def os_path_exists_def
          os_path_isdir_def present_def too_long_def fs_bytes_def path_bytes_def)
  have b: "fs_bytes (?n @ s) = 251 + fs_bytes s" for s
    by (simp add: fs_bytes_def)
  have e: "path_exists ?fs
             (png_in (save_dir (Path True [''home'']) (Some ''out'') ''Movies'') ?n) = Inr True"
    unfolding d
    by (simp add: path_exists_def png_in_def present_def too_long_def path_bytes_def b)
       (simp add: fs_bytes_def)
  have t: "too_long ?fs p"
    if "candidate (png_in (save_dir (Path True [''home'']) (Some ''out'') ''Movies'') ?n) ?n 1
          = Inr p" for p
  proof -
    have "?n \<noteq> []" by simp
    from candidate_plain [OF n this, of False "[''out'', ''Movies'']" 1] that
    have "p = Path False [''out'', ''Movies'', ?n @ ''_'' @ str_nat 1 @ ''.png'']"
      unfolding d by (simp add: png_in_def)
    then show ?thesis
      by (simp add: too_long_def b str_nat.simps digit_char_def) (simp add: fs_bytes_def)
  qed
  from create_save_path_name_too_long [OF n m e t] show ?thesis .
qed

text \<open>
  A download that succeeds adds exactly one file, at a path that was absent: files
  already in the directory are never written again.
\<close>

lemma download_images_new_file:
  assumes "download_images server cwd fs save_path library_name name url = (fs', Inr d)"
  shows "\<exists>p. files fs' = files fs @ [p] \<and> \<not> present fs p"
proof -
  let ?R = "create_save_path cwd fs save_path library_name name"
  obtain fs1 r where c: "?R = (fs1, r)" by (cases ?R)
  with assms obtain p where r: "r = Inr p"
    by (cases r) (simp_all add: download_images_def)
  from c r have "snd ?R = Inr p" and f1: "fst ?R = fs1" by simp_all
  from create_save_path_fresh [OF this(1)] f1 have n: "\<not> present fs1 p"
    by (simp add: path_exists_def split: if_splits)
  have m: "fs1 = fst (makedirs fs (save_dir cwd save_path library_name))"
    using f1 by (simp add: create_save_path_fst)
  have fl: "files fs1 = files fs" and ds: "set (dirs fs) \<subseteq> set (dirs fs1)"
    unfolding m by (rule makedirs_files, rule makedirs_dirs(2))
  from n fl ds have n0: "\<not> present fs p" by (auto simp: present_def)
  from n have "p \<notin> set (files fs1)" by (simp add: present_def)
  with assms c r have "files fs' = files fs1 @ [p]"
    by (auto simp: download_images_def urlretrieve_def split: if_splits)
  with fl n0 show ?thesis by auto
qed

text \<open>
  C9.  \<open>create_save_path\<close> leaves the files as they are, in every state and whatever
  its outcome; it adds directories only, and only the save directory and its ancestors.
  When it returns a path, the save directory exists, and the path names neither a file
  nor a directory of the state after the call.  It does return a path when the
  directory can be made, the name has no separator, some probed path of an index \<open>k\<close>
  is free, and the file system refuses neither the first path nor a probed path up to
  \<open>k\<close> as too long.
\<close>

theorem create_save_path_frame:
  "files (fst (create_save_path cwd fs save_path library_name name)) = files fs \<and>
   set (dirs fs) \<subseteq> set (dirs (fst (create_save_path cwd fs save_path library_name name))) \<and>
   set (dirs (fst (create_save_path cwd fs save_path library_name name)))
     \<subseteq> set (dirs fs) \<union> set (ancestors_and_self (save_dir cwd save_path library_name)) \<and>
   (\<forall>p. snd (create_save_path cwd fs save_path library_name name) = Inr p \<longrightarrow>
      path_exists (fst (create_save_path cwd fs save_path library_name name)) p = Inr False \<and>
      p \<notin> set (files fs) \<and>
      (parts (save_dir cwd save_path library_name) = [] \<or>
       save_dir cwd save_path library_name
         \<in> set (dirs (fst (create_save_path cwd fs save_path library_name name))))) \<and>
   (CHR ''/'' \<notin> set name \<and> snd (makedirs fs (save_dir cwd save_path library_name)) = Inr () \<and>
    \<not> too_long fs (png_in (save_dir cwd save_path library_name) name) \<and> 1 \<le> k \<and>
    (\<forall>j q. 1 \<le> j \<and> j \<le> k \<and>
       candidate (png_in (save_dir cwd save_path library_name) name) name j = Inr q
         \<longrightarrow> \<not> too_long fs q) \<and>
    (\<forall>q. candidate (png_in (save_dir cwd save_path library_name) name) name k = Inr q
         \<longrightarrow> \<not> present fs q)
      \<longrightarrow> (\<exists>p. snd (create_save_path cwd fs save_path library_name name) = Inr p))"
proof -
  let ?d = "save_dir cwd save_path library_name"
  let ?ip = "png_in ?d name"
  let ?R = "create_save_path cwd fs save_path library_name name"
  have f: "files (fst ?R) = files fs"
    by (simp add: create_save_path_fst makedirs_files)
  have d1: "set (dirs fs) \<subseteq> set (dirs (fst ?R))"
    and d2: "set (dirs (fst ?R)) \<subseteq> set (dirs fs) \<union> set (ancestors_and_self ?d)"
    using makedirs_dirs [of fs ?d] by (simp_all add: create_save_path_fst)
  have r: "path_exists (fst ?R) p = Inr False \<and> p \<notin> set (files fs) \<and>
           (parts ?d = [] \<or> ?d \<in> set (dirs (fst ?R)))" if p: "snd ?R = Inr p" for p
  proof -
    from create_save_path_fresh [OF p] have n: "path_exists (fst ?R) p = Inr False" .
    then have "p \<notin> set (files fs)"
      using f by (auto simp: path_exists_def present_def split: if_splits)
    moreover have "snd (makedirs fs ?d) = Inr ()"
      using p by (cases "makedirs fs ?d") (auto simp: create_save_path_def split: sum.splits)
    then have "parts ?d = [] \<or> ?d \<in> set (dirs (fst ?R))"
      using makedirs_creates [of fs ?d] by (simp add: create_save_path_fst)
    ultimately show ?thesis using n by simp
  qed
  have t: "\<exists>p. snd ?R = Inr p"
    if s: "CHR ''/'' \<notin> set name" and m: "snd (makedirs fs ?d) = Inr ()"
      and i: "\<not> too_long fs ?ip" and k: "1 \<le> k"
      and l: "\<forall>j q. 1 \<le> j \<and> j \<le> k \<and> candidate ?ip name j = Inr q \<longrightarrow> \<not> too_long fs q"
      and free: "\<forall>q. candidate ?ip name k = Inr q \<longrightarrow> \<not> present fs q"
  proof -
    note o = create_save_path_outcome [OF s m]
    from i obtain b where b: "path_exists fs ?ip = Inr b" by (simp add: path_exists_def)
    show ?thesis
    proof (cases b)
      case False
      with o b show ?thesis by simp
    next
      case True
      with o b obtain k0 p0 where k0: "1 \<le> k0" and p0: "candidate ?ip name k0 = Inr p0"
        and below: "\<forall>j. 1 \<le> j \<and> j < k0 \<longrightarrow>
                      (\<exists>q. candidate ?ip name j = Inr q \<and> path_exists fs q = Inr True)"
        and res: "case path_exists fs p0 of Inl e \<Rightarrow> snd ?R = Inl e
                  | Inr b' \<Rightarrow> \<not> b' \<and> snd ?R = Inr p0"
        by auto
      have "k0 \<le> k"
      proof (rule ccontr)
        assume "\<not> k0 \<le> k"
        with k have "1 \<le> k \<and> k < k0" by simp
        with below obtain q where "candidate ?ip name k = Inr q" "path_exists fs q = Inr True"
          by blast
        with free show False by (auto simp: path_exists_def split: if_splits)
      qed
      with k0 p0 l have "\<not> too_long fs p0" by blast
      then obtain b' where "path_exists fs p0 = Inr b'" by (simp add: path_exists_def)
      with res show ?thesis by simp
    qed
  qed
  from f d1 d2 r t show ?thesis by blast
qed

theorem create_save_path_frame_witness:
  "files (fst (create_save_path (Path True [''home''])
                 \<lparr>files = [], dirs = [], name_max = 255, path_max = 4095\<rparr>
                 None ''Movies'' ''Foo'')) = [] \<and>
   dirs (fst (create_save_path (Path True [''home''])
                 \<lparr>files = [], dirs = [], name_max = 255, path_max = 4095\<rparr>
                 None ''Movies'' ''Foo''))
     = [Path True [''home''], Path True [''home'', ''Posters''],
        Path True [''home'', ''Posters'', ''Movies'']] \<and>
   snd (create_save_path (Path True [''home''])
                 \<lparr>files = [], dirs = [], name_max = 255, path_max = 4095\<rparr>
                 None ''Movies'' ''Foo'')
     = Inr (Path True [''home'', ''Posters'', ''Movies'', ''Foo.png'']) \<and>
   path_exists (fst (create_save_path (Path True [''home''])
                 \<lparr>files = [], dirs = [], name_max = 255, path_max = 4095\<rparr>
                 None ''Movies'' ''Foo''))
        (Path True [''home'', ''Posters'', ''Movies'', ''Foo.png'']) = Inr False"
proof -
  let ?R = "create_save_path (Path True [''home''])
              \<lparr>files = [], dirs = [], name_max = 255, path_max = 4095\<rparr>
              None ''Movies'' ''Foo''"
  have e: "?R = (\<lparr>files = [], dirs = [Path True [''home''], Path True [''home'', ''Posters''],
                    Path True [''home'', ''Posters'', ''Movies'']],
                   name_max = 255, path_max = 4095\<rparr>,
                 Inr (Path True [''home'', ''Posters'', ''Movies'', ''Foo.png'']))"
    by (simp add: create_save_path_def makedirs.simps mkdir_def path_parent_def
          os_path_exists_def os_path_isdir_def save_dir_def joinpath_def pure_path_def
          path_exists_def present_def too_long_def fs_bytes_def path_bytes_def Let_def)
  from create_save_path_frame [of "Path True [''home'']"
         "\<lparr>files = [], dirs = [], name_max = 255, path_max = 4095\<rparr>" None
         "''Movies''" "''Foo''"]
  have "path_exists (fst ?R) (Path True [''home'', ''Posters'', ''Movies'', ''Foo.png''])
          = Inr False"
    using e by simp
  with e show ?thesis by simp
qed

section \<open>Name sanitization\<close>

text \<open>
  \<open>runs\<close> cuts a string into its maximal runs: the runs put together give the string
  back, no run is empty, the class is constant on a run and changes from each run to
  the next.
\<close>

lemma runs_concat: "concat (runs P s) = s"
  by (induction s) (auto split: list.splits)

lemma runs_hd: "s \<noteq> [] \<Longrightarrow> runs P s \<noteq> [] \<and> hd (runs P s) \<noteq> [] \<and> hd (hd (runs P s)) = hd s"
  by (induction s) (auto split: list.splits)

lemma runs_nonempty: "r \<in> set (runs P s) \<Longrightarrow> r \<noteq> []"
  by (induction s arbitrary: r) (auto split: list.splits if_splits)

lemma runs_class: "r \<in> set (runs P s) \<Longrightarrow> x \<in> set r \<Longrightarrow> P x = P (hd r)"
proof (induction s arbitrary: r x)
  case Nil
  then show ?case by simp
next
  case (Cons c cs)
  show ?case
  proof (cases "runs P cs")
    case Nil
    with Cons.prems show ?thesis by simp
  next
    case (Cons r' rs)
    note rc = this
    have ih: "\<And>q y. q \<in> set (r' # rs) \<Longrightarrow> y \<in> set q \<Longrightarrow> P y = P (hd q)"
      using Cons.IH unfolding rc by blast
    show ?thesis
    proof (cases "P (hd r') = P c")
      case True
      then have "runs P (c # cs) = (c # r') # rs" using rc by simp
      with Cons.prems(1) have "r = c # r' \<or> r \<in> set rs" by simp
      then show ?thesis
      proof
        assume e: "r = c # r'"
        with Cons.prems(2) have "x = c \<or> x \<in> set r'" by simp
        then show ?thesis
        proof
          assume "x = c" with e show ?thesis by simp
        next
          assume "x \<in> set r'"
          then have "P x = P (hd r')" by (intro ih) simp_all
          with True e show ?thesis by simp
        qed
      next
        assume "r \<in> set rs"
        then show ?thesis using Cons.prems(2) by (intro ih) simp_all
      qed
    next
      case False
      then have "runs P (c # cs) = [c] # r' # rs" using rc by simp
      with Cons.prems(1) have "r = [c] \<or> r \<in> set (r' # rs)" by simp
      then show ?thesis
      proof
        assume "r = [c]"
        with Cons.prems(2) show ?thesis by simp
      next
        assume "r \<in> set (r' # rs)"
        then show ?thesis using Cons.prems(2) by (intro ih)
      qed
    qed
  qed
qed

lemma runs_maximal:
  "runs P s = pre @ r1 # r2 # post \<Longrightarrow> P (hd r1) \<noteq> P (hd r2)"
proof (induction s arbitrary: pre r1)
  case Nil
  then show ?case by simp
next
  case (Cons c cs)
  show ?case
  proof (cases "runs P cs")
    case Nil
    with Cons.prems show ?thesis by (cases pre) auto
  next
    case r: (Cons r' rs)
    show ?thesis
    proof (cases pre)
      case Nil
      show ?thesis
      proof (cases "P (hd r') = P c")
        case True
        with r Nil Cons.prems have "r1 = c # r'" "rs = r2 # post" by simp_all
        with r have "runs P cs = [] @ r' # r2 # post" by simp
        from Cons.IH [OF this] True \<open>r1 = c # r'\<close> show ?thesis by simp
      next
        case False
        with r Nil Cons.prems show ?thesis by auto
      qed
    next
      case (Cons q pre')
      show ?thesis
      proof (cases "P (hd r') = P c")
        case True
        with r Cons Cons.prems have "rs = pre' @ r1 # r2 # post" by simp
        with r have "runs P cs = (r' # pre') @ r1 # r2 # post" by simp
        from Cons.IH [OF this] show ?thesis .
      next
        case False
        with r Cons Cons.prems have "r' # rs = pre' @ r1 # r2 # post" by simp
        with r have "runs P cs = pre' @ r1 # r2 # post" by simp
        from Cons.IH [OF this] show ?thesis .
      qed
    qed
  qed
qed

lemma runs_append_run:
  assumes "ns \<noteq> []" and "\<forall>x\<in>set ns. P x = b" and "rest = [] \<or> P (hd rest) \<noteq> b"
  shows "runs P (ns @ rest) = ns # runs P rest"
  using assms
proof (induction ns)
  case Nil
  then show ?case by simp
next
  case (Cons c ns)
  show ?case
  proof (cases ns)
    case Nil
    show ?thesis
    proof (cases rest)
      case Nil
      with \<open>ns = []\<close> show ?thesis by simp
    next
      case (Cons d ds)
      with runs_hd [of rest P] have "runs P rest \<noteq> []" "hd (hd (runs P rest)) = d" by simp_all
      with Cons Cons.prems \<open>ns = []\<close> show ?thesis
        by (cases "runs P rest") auto
    qed
  next
    case (Cons c' ns')
    with Cons.IH Cons.prems have "runs P (ns @ rest) = ns # runs P rest" by simp
    with Cons Cons.prems show ?thesis by simp
  qed
qed

lemma re_sub_nonword_runs:
  "re_sub_nonword repl s
     = concat (map (\<lambda>r. if is_word (hd r) then r else repl) (runs is_word s))"
proof (induction repl s rule: re_sub_nonword.induct)
  case (1 repl)
  then show ?case by simp
next
  case (2 repl c cs)
  show ?case
  proof (cases "is_word c")
    case True
    with 2 show ?thesis by (auto split: list.splits)
  next
    case False
    let ?ns = "c # takeWhile (\<lambda>x. \<not> is_word x) cs"
    let ?rest = "dropWhile (\<lambda>x. \<not> is_word x) cs"
    have "\<forall>x\<in>set ?ns. is_word x = False"
      using False by (auto dest: set_takeWhileD)
    moreover have "?rest = [] \<or> is_word (hd ?rest) \<noteq> False"
      using hd_dropWhile [of "\<lambda>x. \<not> is_word x" cs] by blast
    ultimately have "runs is_word (?ns @ ?rest) = ?ns # runs is_word ?rest"
      by (intro runs_append_run [where b = False]) simp_all
    then have "runs is_word (c # cs) = ?ns # runs is_word ?rest" by simp
    with False 2 show ?thesis by simp
  qed
qed

lemma sanitize_example:
  "re_sub_nonword '' '' ''Spider-Man: Far From Home'' = ''Spider Man Far From Home''"
  by (simp add: is_word_def)

lemma runs_example:
   "runs is_word ''Spider-Man: Far From Home''
     = [''Spider'', ''-'', ''Man'', '': '', ''Far'', '' '', ''From'', '' '', ''Home'']"
  by (simp add: is_word_def)

section \<open>The download loop\<close>




text \<open>The names the loop builds have no separator, and the name of a video is not empty.\<close>

lemma is_word_slash: "\<not> is_word CHR ''/''"
  by (simp add: is_word_def)

lemma re_sub_nonword_no_slash:
  "CHR ''/'' \<notin> set repl \<Longrightarrow> CHR ''/'' \<notin> set (re_sub_nonword repl s)"
proof (induction repl s rule: re_sub_nonword.induct)
  case (1 repl)
  then show ?case by simp
next
  case (2 repl c cs)
  then show ?case using is_word_slash by (cases "is_word c") auto
qed

lemma re_sub_nonword_nonempty: "s \<noteq> [] \<Longrightarrow> re_sub_nonword '' '' s \<noteq> []"
  by (cases s) simp_all

lemma py_str_year_no_slash: "CHR ''/'' \<notin> set (py_str_year y)"
  using str_nat_digits by (cases y) (simp_all add: py_str_year_def py_str_int_def)

lemma video_name_plain: "CHR ''/'' \<notin> set (video_name c) \<and> video_name c \<noteq> []"
  by (simp add: video_name_def Let_def re_sub_nonword_no_slash py_str_year_no_slash)

text \<open>
  The download of a poster under a name without a separator: the path comes from
  \<open>create_save_path\<close>, the request decides between the new file and \<open>URLError\<close>, and the
  directory remembered is the save directory.
\<close>

lemma candidate_parent:
  "candidate (Path r (ps @ [x])) name i = Inr p \<Longrightarrow> path_parent p = Path r ps"
  by (auto simp: candidate_def with_stem_def with_name_def path_parent_def split: if_splits)

lemma create_save_path_parent:
  assumes "CHR ''/'' \<notin> set name"
    and "snd (create_save_path cwd fs save_path library_name name) = Inr p"
  shows "path_parent p = save_dir cwd save_path library_name"
proof -
  let ?d = "save_dir cwd save_path library_name"
  let ?ip = "joinpath ?d (name @ ''.png'')"
  have ip: "?ip = Path (is_abs ?d) (parts ?d @ [name @ ''.png''])"
    using assms(1) by (rule image_path_plain)
  obtain fs' r where m: "makedirs fs ?d = (fs', r)" by (cases "makedirs fs ?d")
  from assms(2) m obtain u where r: "r = Inr u"
    by (cases r) (simp_all add: create_save_path_def)
  from assms(2) m r obtain b where b: "path_exists fs' ?ip = Inr b"
    by (cases "path_exists fs' ?ip") (simp_all add: create_save_path_def Let_def)
  show ?thesis
  proof (cases b)
    case False
    with assms(2) m r b have "p = ?ip" by (simp add: create_save_path_def Let_def)
    then show ?thesis unfolding ip by (simp add: path_parent_def)
  next
    case True
    with assms(2) m r b have "bind (probe fs' ?ip name 1) (candidate ?ip name) = Inr p"
      by (simp add: create_save_path_def Let_def)
    then obtain k where "candidate ?ip name k = Inr p"
      by (cases "probe fs' ?ip name 1") simp_all
    then show ?thesis unfolding ip by (simp add: candidate_parent)
  qed
qed

lemma download_images_outcome:
  assumes "CHR ''/'' \<notin> set name"
  shows "download_images server cwd fs save_path library_name name url
           = (case create_save_path cwd fs save_path library_name name of
                (fs', Inl e) \<Rightarrow> (fs', Inl e)
              | (fs', Inr p) \<Rightarrow>
                  if server url
                  then (fs'\<lparr>files := files fs' @ [p]\<rparr>,
                        Inr (save_dir cwd save_path library_name))
                  else (fs', Inl URLError))"
proof -
  let ?d = "save_dir cwd save_path library_name"
  let ?R = "create_save_path cwd fs save_path library_name name"
  obtain fs' r where c: "?R = (fs', r)" by (cases ?R)
  show ?thesis
  proof (cases r)
    case (Inl e)
    with c show ?thesis by (simp add: download_images_def)
  next
    case (Inr p)
    with c have s: "snd ?R = Inr p" and f: "fst ?R = fs'" by simp_all
    from create_save_path_fresh [OF s] f have e: "path_exists fs' p = Inr False" by simp
    then have n: "\<not> too_long fs' p" "parts p \<noteq> []" "p \<notin> set (files fs')" "p \<notin> set (dirs fs')"
      by (auto simp: path_exists_def present_def split: if_splits)
    have pp: "path_parent p = ?d" using assms s by (rule create_save_path_parent)
    have "snd (makedirs fs ?d) = Inr ()"
      using s by (cases "makedirs fs ?d") (auto simp: create_save_path_def split: sum.splits)
    then have "parts ?d = [] \<or> ?d \<in> set (dirs (fst (makedirs fs ?d)))"
      by (rule makedirs_creates)
    then have dd: "parts ?d = [] \<or> ?d \<in> set (dirs fs')"
      using f by (simp add: create_save_path_fst)
    show ?thesis
      using c Inr n pp dd by (simp add: download_images_def urlretrieve_def)
  qed
qed

lemma save_poster_outcome:
  assumes "CHR ''/'' \<notin> set name"
  shows "save_poster server env cwd save_path lib st name images
           = (case thumb_url env images of
                Inl e \<Rightarrow> (st, Inl e)
              | Inr url \<Rightarrow>
                  (case create_save_path cwd (st_fs st) save_path (section_name lib) name of
                     (fs', Inl e) \<Rightarrow> (st\<lparr>st_fs := fs'\<rparr>, Inl e)
                   | (fs', Inr p) \<Rightarrow>
                       if server url
                       then (\<lparr>st_fs = fs'\<lparr>files := files fs' @ [p]\<rparr>,
                              st_save_dir_path = Some (save_dir cwd save_path (section_name lib))\<rparr>,
                             Inr ())
                       else (st\<lparr>st_fs := fs'\<rparr>, Inl URLError)))"
  by (simp add: save_poster_def download_images_outcome [OF assms]
        split: sum.splits prod.splits)


text \<open>
  The file of a poster: after a download under a non-empty name without a separator the
  files are those of before and one more, named by the name itself or by the name and
  an index.
\<close>

lemma save_poster_file:
  assumes "CHR ''/'' \<notin> set name" and "name \<noteq> []"
    and "save_poster server env cwd save_path lib st name images = (st', Inr ())"
  shows "\<exists>p. files (st_fs st') = files (st_fs st) @ [p] \<and>
             (p = png_in (save_dir cwd save_path (section_name lib)) name \<or>
              (\<exists>k\<ge>1. p = png_in (save_dir cwd save_path (section_name lib))
                              (name @ ''_'' @ str_nat k)))"
proof -
  let ?d = "save_dir cwd save_path (section_name lib)"
  let ?R = "create_save_path cwd (st_fs st) save_path (section_name lib) name"
  obtain fs' r where c: "?R = (fs', r)" by (cases ?R)
  from assms(3) obtain url where u: "thumb_url env images = Inr url"
    by (cases "thumb_url env images") (simp_all add: save_poster_def)
  from assms(3) u c obtain p where r: "r = Inr p"
    unfolding save_poster_outcome [OF assms(1)] by (cases r) simp_all
  from assms(3) u c r have st': "st_fs st' = fs'\<lparr>files := files fs' @ [p]\<rparr>"
    unfolding save_poster_outcome [OF assms(1)] by (auto split: if_splits)
  have "fs' = fst (makedirs (st_fs st) ?d)"
    using c create_save_path_fst [of cwd "st_fs st" save_path "section_name lib" name] by simp
  then have fl: "files fs' = files (st_fs st)" by (simp add: makedirs_files)
  from c r have s: "snd ?R = Inr p" by simp
  then have m: "snd (makedirs (st_fs st) ?d) = Inr ()"
    by (cases "makedirs (st_fs st) ?d") (auto simp: create_save_path_def split: sum.splits)
  note o = create_save_path_outcome [OF assms(1) m]
  have "p = png_in ?d name \<or> (\<exists>k\<ge>1. p = png_in ?d (name @ ''_'' @ str_nat k))"
  proof (cases "path_exists (st_fs st) (png_in ?d name)")
    case (Inl e)
    with o s show ?thesis by simp
  next
    case (Inr b)
    show ?thesis
    proof (cases b)
      case False
      with o Inr s show ?thesis by simp
    next
      case True
      with o Inr obtain k q where k: "1 \<le> k" and q: "candidate (png_in ?d name) name k = Inr q"
        and res: "case path_exists (st_fs st) q of Inl e \<Rightarrow> snd ?R = Inl e
                  | Inr b' \<Rightarrow> \<not> b' \<and> snd ?R = Inr q"
        by auto
      from res s have "p = q" by (cases "path_exists (st_fs st) q") simp_all
      with q candidate_plain [OF assms(1,2), of "is_abs ?d" "parts ?d" k]
      have "p = png_in ?d (name @ ''_'' @ str_nat k)" by (simp add: png_in_def)
      with k show ?thesis by blast
    qed
  qed
  with st' fl show ?thesis by simp
qed








subsection \<open>The claims about the download loop\<close>

text \<open>
  C8.  The substitution \<open>re.sub('\W+', ' ', title)\<close> replaces every maximal run of
  non-word characters of the title by one space and keeps the runs of word characters,
  and the names of the loop are made with it: the download of an album is called with
  the album title so cleaned, the download of a video item with the item title so
  cleaned followed by the parenthesised year attribute.  When such a download succeeds,
  the file it adds is named by that name, or by that name and an index when the name is
  in use.
\<close>

theorem poster_names_sanitized:
  "re_sub_nonword '' '' title = replace_nonword_runs title \<and>
   process_album server env cwd save_path lib st a
     = (if album_thumb a = None then (st, Inr ())
        else save_poster server env cwd save_path lib st
               (replace_nonword_runs (album_title a)) (album_images a)) \<and>
   process_video server env cwd save_path lib st c
     = (if child_thumb c = None then (st, Inr ())
        else save_poster server env cwd save_path lib st
               (replace_nonword_runs (child_title c) @ '' ('' @ py_str_year (child_year c) @ '')'')
               (child_images c)) \<and>
   (\<forall>st'. album_thumb a \<noteq> None \<and> album_title a \<noteq> [] \<and>
          process_album server env cwd save_path lib st a = (st', Inr ()) \<longrightarrow>
      (\<exists>p. files (st_fs st') = files (st_fs st) @ [p] \<and>
           (p = png_in (save_dir cwd save_path (section_name lib))
                  (replace_nonword_runs (album_title a)) \<or>
            (\<exists>k\<ge>1. p = png_in (save_dir cwd save_path (section_name lib))
                            (replace_nonword_runs (album_title a) @ ''_'' @ str_nat k))))) \<and>
   (\<forall>st'. child_thumb c \<noteq> None \<and>
          process_video server env cwd save_path lib st c = (st', Inr ()) \<longrightarrow>
      (\<exists>p. files (st_fs st') = files (st_fs st) @ [p] \<and>
           (p = png_in (save_dir cwd save_path (section_name lib))
                  (replace_nonword_runs (child_title c) @
                   '' ('' @ py_str_year (child_year c) @ '')'') \<or>
            (\<exists>k\<ge>1. p = png_in (save_dir cwd save_path (section_name lib))
                            (replace_nonword_runs (child_title c) @
                             '' ('' @ py_str_year (child_year c) @ '')'' @
                             ''_'' @ str_nat k)))))"
proof -
  have s: "re_sub_nonword '' '' t = replace_nonword_runs t" for t
    by (simp only: re_sub_nonword_runs replace_nonword_runs_def)
  have pa: "process_album server env cwd save_path lib st a
     = (if album_thumb a = None then (st, Inr ())
        else save_poster server env cwd save_path lib st
               (replace_nonword_runs (album_title a)) (album_images a))"
    by (simp add: process_album_def s Let_def)
  have vn: "video_name c
              = replace_nonword_runs (child_title c) @ '' ('' @ py_str_year (child_year c) @ '')''"
    by (simp add: video_name_def s Let_def)
  have pv: "process_video server env cwd save_path lib st c
     = (if child_thumb c = None then (st, Inr ())
        else save_poster server env cwd save_path lib st
               (replace_nonword_runs (child_title c) @ '' ('' @ py_str_year (child_year c) @ '')'')
               (child_images c))"
    by (simp add: process_video_def vn Let_def)
  have fa: "\<exists>p. files (st_fs st') = files (st_fs st) @ [p] \<and>
           (p = png_in (save_dir cwd save_path (section_name lib))
                  (replace_nonword_runs (album_title a)) \<or>
            (\<exists>k\<ge>1. p = png_in (save_dir cwd save_path (section_name lib))
                            (replace_nonword_runs (album_title a) @ ''_'' @ str_nat k)))"
    if h: "album_thumb a \<noteq> None \<and> album_title a \<noteq> [] \<and>
          process_album server env cwd save_path lib st a = (st', Inr ())" for st'
  proof -
    have n1: "CHR ''/'' \<notin> set (replace_nonword_runs (album_title a))"
      unfolding s [symmetric] by (rule re_sub_nonword_no_slash) simp
    have n2: "replace_nonword_runs (album_title a) \<noteq> []"
      unfolding s [symmetric] using h by (intro re_sub_nonword_nonempty) simp
    from h pa have "save_poster server env cwd save_path lib st
               (replace_nonword_runs (album_title a)) (album_images a) = (st', Inr ())"
      by (auto split: if_splits)
    from save_poster_file [OF n1 n2 this] show ?thesis .
  qed
  have fv: "\<exists>p. files (st_fs st') = files (st_fs st) @ [p] \<and>
           (p = png_in (save_dir cwd save_path (section_name lib))
                  (replace_nonword_runs (child_title c) @
                   '' ('' @ py_str_year (child_year c) @ '')'') \<or>
            (\<exists>k\<ge>1. p = png_in (save_dir cwd save_path (section_name lib))
                            (replace_nonword_runs (child_title c) @
                             '' ('' @ py_str_year (child_year c) @ '')'' @
                             ''_'' @ str_nat k)))"
    if h: "child_thumb c \<noteq> None \<and>
          process_video server env cwd save_path lib st c = (st', Inr ())" for st'
  proof -
    let ?n = "replace_nonword_runs (child_title c) @ '' ('' @ py_str_year (child_year c) @ '')''"
    from video_name_plain [of c] have n1: "CHR ''/'' \<notin> set ?n" and n2: "?n \<noteq> []"
      unfolding vn by simp_all
    from h pv have "save_poster server env cwd save_path lib st ?n (child_images c) = (st', Inr ())"
      by (auto split: if_splits)
    from save_poster_file [OF n1 n2 this] show ?thesis by simp
  qed
  from s [of title] pa pv fa fv show ?thesis by blast
qed

theorem poster_names_sanitized_witness:
  "replace_nonword_runs ''Spider-Man: Far From Home'' = ''Spider Man Far From Home'' \<and>
   process_album (\<lambda>url. True)
     [''PLEX_SERVER_PUBLIC_IP'' \<mapsto> ''http://10.0.0.2:32400'', ''PLEX_TOKEN'' \<mapsto> ''abc'']
     (Path True [''home'']) (Some ''out'')
     \<lparr>section_name = ''Music'', section_type = ''artist'', section_all = []\<rparr>
     \<lparr>st_fs = \<lparr>files = [], dirs = [], name_max = 255, path_max = 4095\<rparr>,
       st_save_dir_path = None\<rparr>
     \<lparr>album_title = ''Spider-Man: Far From Home'', album_thumb = Some ''/thumb/7'',
       album_images = [''/library/metadata/7/thumb'']\<rparr>
   = (\<lparr>st_fs = \<lparr>files = [Path False [''out'', ''Music'', ''Spider Man Far From Home.png'']],
                   dirs = [Path False [''out''], Path False [''out'', ''Music'']],
                   name_max = 255, path_max = 4095\<rparr>,
        st_save_dir_path = Some (Path False [''out'', ''Music''])\<rparr>, Inr ()) \<and>
   (\<exists>p. [Path False [''out'', ''Music'', ''Spider Man Far From Home.png'']] = [] @ [p] \<and>
        (p = png_in (save_dir (Path True [''home'']) (Some ''out'') ''Music'')
               ''Spider Man Far From Home'' \<or>
         (\<exists>k\<ge>1. p = png_in (save_dir (Path True [''home'']) (Some ''out'') ''Music'')
                         (''Spider Man Far From Home'' @ ''_'' @ str_nat k))))"
proof -
  let ?env = "[''PLEX_SERVER_PUBLIC_IP'' \<mapsto> ''http://10.0.0.2:32400'',
               ''PLEX_TOKEN'' \<mapsto> ''abc'']"
  let ?lib = "\<lparr>section_name = ''Music'', section_type = ''artist'', section_all = []\<rparr>"
  let ?st = "\<lparr>st_fs = \<lparr>files = [], dirs = [], name_max = 255, path_max = 4095\<rparr>,
              st_save_dir_path = None\<rparr>"
  let ?a = "\<lparr>album_title = ''Spider-Man: Far From Home'', album_thumb = Some ''/thumb/7'',
             album_images = [''/library/metadata/7/thumb'']\<rparr>"
  let ?st' = "\<lparr>st_fs = \<lparr>files = [Path False [''out'', ''Music'', ''Spider Man Far From Home.png'']],
                   dirs = [Path False [''out''], Path False [''out'', ''Music'']],
                   name_max = 255, path_max = 4095\<rparr>,
        st_save_dir_path = Some (Path False [''out'', ''Music''])\<rparr>"
  note t = poster_names_sanitized
             [of "''Spider-Man: Far From Home''" "\<lambda>url. True" ?env "Path True [''home'']"
                 "Some ''out''" ?lib ?st ?a]
  have r: "replace_nonword_runs ''Spider-Man: Far From Home'' = ''Spider Man Far From Home''"
    using t by (simp add: is_word_def)
  have e: "process_album (\<lambda>url. True) ?env (Path True [''home'']) (Some ''out'') ?lib ?st ?a
             = (?st', Inr ())"
    by (simp add: is_word_def process_album_def save_poster_def thumb_url_def
          environ_get_def download_images_def urlretrieve_def path_parent_def
          create_save_path_def save_dir_def makedirs.simps mkdir_def os_path_exists_def
          os_path_isdir_def joinpath_def pure_path_def path_exists_def present_def
          too_long_def fs_bytes_def path_bytes_def Let_def)
  from t have "\<forall>st'. album_thumb ?a \<noteq> None \<and> album_title ?a \<noteq> [] \<and>
          process_album (\<lambda>url. True) ?env (Path True [''home'']) (Some ''out'') ?lib ?st ?a
            = (st', Inr ()) \<longrightarrow>
      (\<exists>p. files (st_fs st') = files (st_fs ?st) @ [p] \<and>
           (p = png_in (save_dir (Path True [''home'']) (Some ''out'') (section_name ?lib))
                  (replace_nonword_runs (album_title ?a)) \<or>
            (\<exists>k\<ge>1. p = png_in (save_dir (Path True [''home'']) (Some ''out'') (section_name ?lib))
                            (replace_nonword_runs (album_title ?a) @ ''_'' @ str_nat k))))"
    by blast
  then have "\<exists>p. files (st_fs ?st') = files (st_fs ?st) @ [p] \<and>
           (p = png_in (save_dir (Path True [''home'']) (Some ''out'') (section_name ?lib))
                  (replace_nonword_runs (album_title ?a)) \<or>
            (\<exists>k\<ge>1. p = png_in (save_dir (Path True [''home'']) (Some ''out'') (section_name ?lib))
                            (replace_nonword_runs (album_title ?a) @ ''_'' @ str_nat k)))"
    using e by simp
  then have "\<exists>p. [Path False [''out'', ''Music'', ''Spider Man Far From Home.png'']] = [] @ [p] \<and>
        (p = png_in (save_dir (Path True [''home'']) (Some ''out'') ''Music'')
               ''Spider Man Far From Home'' \<or>
         (\<exists>k\<ge>1. p = png_in (save_dir (Path True [''home'']) (Some ''out'') ''Music'')
                         (''Spider Man Far From Home'' @ ''_'' @ str_nat k)))"
    by (simp add: r)
  with r e show ?thesis by blast
qed

text \<open>The name of a video item whose year is known ends with the year in parentheses.\<close>

lemma video_name_known_year:
  "child_year c = Some y \<Longrightarrow>
   video_name c = re_sub_nonword '' '' (child_title c) @ '' ('' @ py_str_int y @ '')''"
  by (simp add: video_name_def py_str_year_def Let_def)

lemma video_name_example:
  "video_name \<lparr>child_title = ''Spider-Man: Far From Home'', child_year = Some 2019,
                child_thumb = None, child_images = [], child_albums = []\<rparr>
     = ''Spider Man Far From Home (2019)''"
  by (simp add: video_name_def py_str_year_def is_word_def py_str_int_def str_nat.simps
        digit_char_def)

text \<open>
  C4.  The claim: the file of a video item is named by the sanitized title, with the
  suffix \<open> (YEAR)\<close> only when the year of the item is known, and with no suffix
  otherwise.  The loop appends the parenthesised year attribute to every video name and
  never tests it (the missing poster is tested two lines below), and an f-string
  writes the attribute of an item without a year as \<open>None\<close>.  The item below has no
  year: its name is \<open>Heat (None)\<close>, not \<open>Heat\<close>, and the run writes the file
  \<open>Heat (None).png\<close>.  (\<open>video_name_known_year\<close> gives the suffix of a known year.)
\<close>

theorem video_name_unknown_year:
  "child_year \<lparr>child_title = ''Heat'', child_year = None, child_thumb = Some ''/thumb/2'',
                child_images = [''/library/metadata/2/thumb''], child_albums = []\<rparr> = None \<and>
   re_sub_nonword '' '' ''Heat'' = ''Heat'' \<and>
   video_name \<lparr>child_title = ''Heat'', child_year = None, child_thumb = Some ''/thumb/2'',
                child_images = [''/library/metadata/2/thumb''], child_albums = []\<rparr>
     = ''Heat (None)'' \<and>
   download_loop (\<lambda>url. True)
     [''PLEX_SERVER_PUBLIC_IP'' \<mapsto> ''http://10.0.0.2:32400'', ''PLEX_TOKEN'' \<mapsto> ''abc'']
     (Path True [''home'']) (Some ''out'')
     \<lparr>files = [], dirs = [], name_max = 255, path_max = 4095\<rparr>
     [\<lparr>section_name = ''Movies'', section_type = ''movie'',
       section_all =
         [\<lparr>child_title = ''Heat'', child_year = None, child_thumb = Some ''/thumb/2'',
            child_images = [''/library/metadata/2/thumb''], child_albums = []\<rparr>]\<rparr>]
     = (\<lparr>st_fs = \<lparr>files = [Path False [''out'', ''Movies'', ''Heat (None).png'']],
                     dirs = [Path False [''out''], Path False [''out'', ''Movies'']],
                     name_max = 255, path_max = 4095\<rparr>,
         st_save_dir_path = Some (Path False [''out'', ''Movies''])\<rparr>, Inr ())"
  by (simp add: is_word_def video_name_def py_str_year_def download_loop_def
        process_library_def process_child_def process_video_def save_poster_def thumb_url_def
        environ_get_def download_images_def urlretrieve_def path_parent_def
        create_save_path_def save_dir_def makedirs.simps mkdir_def os_path_exists_def
        os_path_isdir_def joinpath_def pure_path_def path_exists_def present_def
        too_long_def fs_bytes_def path_bytes_def Let_def)








end
